theory Spec2Isabelle
  imports Main "HOL-Library.Word"
begin

unbundle bit_operations_syntax

section \<open>Column types and type promotion (properties.go)\<close>

text \<open>
  \<^verbatim>\<open>flattypes.ColumnType\<close> is the enumeration of the FlatGeobuf schema, in the order of
  its numeric tags (Byte = 0 ... Binary = 14). In Go it is a byte, so a header read from
  a file can carry a tag outside the enumeration: \<open>ColumnTypeOther\<close>, which every
  \<^verbatim>\<open>switch\<close> of the code sends to its default branch.
\<close>

datatype ColumnType =
    ColumnTypeByte | ColumnTypeUByte | ColumnTypeBool | ColumnTypeShort | ColumnTypeUShort
  | ColumnTypeInt | ColumnTypeUInt | ColumnTypeLong | ColumnTypeULong
  | ColumnTypeFloat | ColumnTypeDouble
  | ColumnTypeString | ColumnTypeJson | ColumnTypeDateTime | ColumnTypeBinary
  | ColumnTypeOther "8 word"

text \<open>
  The local table \<^verbatim>\<open>numericTypes\<close> of \<^verbatim>\<open>promoteColumnType\<close>: a Go map from column
  type to rank; a lookup of a type that is not a key reports \<^verbatim>\<open>ok = false\<close>.
\<close>

fun numericTypes :: "ColumnType \<Rightarrow> nat option" where
  "numericTypes ColumnTypeBool = Some 0"
| "numericTypes ColumnTypeByte = Some 1"
| "numericTypes ColumnTypeUByte = Some 2"
| "numericTypes ColumnTypeShort = Some 3"
| "numericTypes ColumnTypeUShort = Some 4"
| "numericTypes ColumnTypeInt = Some 5"
| "numericTypes ColumnTypeUInt = Some 6"
| "numericTypes ColumnTypeLong = Some 7"
| "numericTypes ColumnTypeULong = Some 8"
| "numericTypes ColumnTypeFloat = Some 9"
| "numericTypes ColumnTypeDouble = Some 10"
| "numericTypes _ = None"

definition promoteColumnType :: "ColumnType \<Rightarrow> ColumnType \<Rightarrow> ColumnType" where
  "promoteColumnType a b =
     (if a = b then a
      else if a = ColumnTypeJson \<or> b = ColumnTypeJson then ColumnTypeJson
      else if a = ColumnTypeString \<or> b = ColumnTypeString then ColumnTypeString
      else (case (numericTypes a, numericTypes b) of
              (Some rankA, Some rankB) \<Rightarrow> if rankA > rankB then a else b
            | _ \<Rightarrow> ColumnTypeJson))"

section \<open>Dynamic values, columns and the external libraries\<close>

type_synonym byte = "8 word"

text \<open>
  A Go \<^verbatim>\<open>interface{}\<close> value as the codec sees it: the dynamic types that the type
  switches of \<^verbatim>\<open>properties.go\<close> distinguish, and \<open>VOther\<close> for a value of any other
  dynamic type. Go's \<^verbatim>\<open>int\<close> and \<^verbatim>\<open>uint\<close> are 64 bits wide (a 64-bit platform), a
  floating-point number is its IEEE-754 bit pattern, and a Go string is its bytes.
\<close>

datatype gvalue =
    VNil
  | VBool bool
  | VInt "64 word" | VInt8 "8 word" | VInt16 "16 word" | VInt32 "32 word" | VInt64 "64 word"
  | VUint "64 word" | VUint8 "8 word" | VUint16 "16 word" | VUint32 "32 word"
  | VUint64 "64 word"
  | VFloat32 "32 word" | VFloat64 "64 word"
  | VString "byte list"
  | VNumber "byte list"
  | VBytes "byte list"
  | VMap "(byte list \<times> gvalue) list"
  | VSlice "gvalue list"
  | VOther

text \<open>
  What the code calls from outside the repository and only passes values through:
  \<^verbatim>\<open>encoding/json\<close> (\<^verbatim>\<open>Marshal\<close>, \<^verbatim>\<open>Unmarshal\<close>, the two parsers of \<^verbatim>\<open>json.Number\<close>;
  \<open>None\<close> is a returned error) and Go's conversions between floating-point and integer
  types. They are parameters of the model: every theorem holds for all of them.
\<close>

record extern =
  json_Marshal :: "gvalue \<Rightarrow> byte list option"
  json_Unmarshal :: "byte list \<Rightarrow> gvalue option"
  Number_Int64 :: "byte list \<Rightarrow> 64 word option"
  Number_Float64 :: "byte list \<Rightarrow> 64 word option"
  float32_to_float64 :: "32 word \<Rightarrow> 64 word"
  float64_to_float32 :: "64 word \<Rightarrow> 32 word"
  float32_to_int64 :: "32 word \<Rightarrow> 64 word"
  float64_to_int64 :: "64 word \<Rightarrow> 64 word"
  float64_to_uint64 :: "64 word \<Rightarrow> 64 word"
  int64_to_float64 :: "64 word \<Rightarrow> 64 word"
  uint64_to_float64 :: "64 word \<Rightarrow> 64 word"
  float64_ge_zero :: "64 word \<Rightarrow> bool"

text \<open>
  A column of the schema (\<^verbatim>\<open>writer.Column\<close> when writing, \<^verbatim>\<open>flattypes.Column\<close> when
  reading): name, title, type and nullability.
\<close>

record column =
  col_name :: string
  col_title :: string
  col_type :: ColumnType
  col_nullable :: bool

text \<open>
  \<^verbatim>\<open>geojson.Properties\<close> is a Go map from name to value. Where the code ranges over it,
  the model takes the entries in the order that loop visits them: an association list
  with distinct names. Go leaves that order unspecified, and it may differ between two
  loops over the same map. A \<^verbatim>\<open>nil\<close> map has no entries and is the empty list. The map
  that \<^verbatim>\<open>decodeProperties\<close> builds is only written by name: it is a HOL map.
\<close>

type_synonym Properties = "(string \<times> gvalue) list"

section \<open>Schema inference (properties.go)\<close>

definition inferColumnType :: "extern \<Rightarrow> gvalue \<Rightarrow> ColumnType" where
  "inferColumnType L value =
     (case value of
        VNil \<Rightarrow> ColumnTypeString
      | VBool _ \<Rightarrow> ColumnTypeBool
      | VInt v \<Rightarrow>
          if - 2147483648 \<le> sint v \<and> sint v \<le> 2147483647 then ColumnTypeInt
          else ColumnTypeLong
      | VInt8 _ \<Rightarrow> ColumnTypeInt
      | VInt16 _ \<Rightarrow> ColumnTypeInt
      | VInt32 _ \<Rightarrow> ColumnTypeInt
      | VInt64 _ \<Rightarrow> ColumnTypeLong
      | VUint _ \<Rightarrow> ColumnTypeUInt
      | VUint8 _ \<Rightarrow> ColumnTypeUInt
      | VUint16 _ \<Rightarrow> ColumnTypeUInt
      | VUint32 _ \<Rightarrow> ColumnTypeUInt
      | VUint64 _ \<Rightarrow> ColumnTypeULong
      | VFloat32 _ \<Rightarrow> ColumnTypeFloat
      | VFloat64 _ \<Rightarrow> ColumnTypeDouble
      | VString _ \<Rightarrow> ColumnTypeString
      | VNumber n \<Rightarrow>
          (case Number_Int64 L n of Some _ \<Rightarrow> ColumnTypeLong | None \<Rightarrow> ColumnTypeDouble)
      | VMap _ \<Rightarrow> ColumnTypeJson
      | VSlice _ \<Rightarrow> ColumnTypeJson
      | _ \<Rightarrow> ColumnTypeJson)"

text \<open>
  The state of the two loops of \<^verbatim>\<open>inferColumns\<close>: the map \<^verbatim>\<open>columnTypes\<close> and the
  slice \<^verbatim>\<open>columnOrder\<close>. \<open>infer_entry\<close> is the body of the inner loop.
\<close>

record infer_state =
  columnTypes :: "string \<rightharpoonup> ColumnType"
  columnOrder :: "string list"

definition infer_entry :: "extern \<Rightarrow> string \<times> gvalue \<Rightarrow> infer_state \<Rightarrow> infer_state" where
  "infer_entry L e st =
     (let name = fst e; value = snd e;
          order' = (if columnTypes st name = None then columnOrder st @ [name]
                    else columnOrder st);
          inferredType = inferColumnType L value;
          types' = (case columnTypes st name of
                      Some existingType \<Rightarrow>
                        (columnTypes st)(name \<mapsto> promoteColumnType existingType inferredType)
                    | None \<Rightarrow> (columnTypes st)(name \<mapsto> inferredType))
      in \<lparr>columnTypes = types', columnOrder = order'\<rparr>)"

definition infer_scan :: "extern \<Rightarrow> Properties list \<Rightarrow> infer_state" where
  "infer_scan L features =
     fold (\<lambda>f st. fold (infer_entry L) f st) features
       \<lparr>columnTypes = Map.empty, columnOrder = []\<rparr>"

text \<open>A lookup of a missing key in a Go map gives the zero value, here type tag 0.\<close>

definition lookup_type :: "(string \<rightharpoonup> ColumnType) \<Rightarrow> string \<Rightarrow> ColumnType" where
  "lookup_type m name = (case m name of Some t \<Rightarrow> t | None \<Rightarrow> ColumnTypeByte)"

definition inferColumns :: "extern \<Rightarrow> Properties list \<Rightarrow> column list" where
  "inferColumns L features =
     (if features = [] then []
      else let st = infer_scan L features
           in map (\<lambda>name. \<lparr>col_name = name, col_title = name,
                            col_type = lookup_type (columnTypes st) name,
                            col_nullable = True\<rparr>)
                  (columnOrder st))"

section \<open>Little-endian byte order (encoding/binary)\<close>

definition PutUint16 :: "16 word \<Rightarrow> byte list" where
  "PutUint16 v = [ucast v, ucast (drop_bit 8 v)]"

definition PutUint32 :: "32 word \<Rightarrow> byte list" where
  "PutUint32 v = [ucast v, ucast (drop_bit 8 v), ucast (drop_bit 16 v), ucast (drop_bit 24 v)]"

definition PutUint64 :: "64 word \<Rightarrow> byte list" where
  "PutUint64 v =
     [ucast v, ucast (drop_bit 8 v), ucast (drop_bit 16 v), ucast (drop_bit 24 v),
      ucast (drop_bit 32 v), ucast (drop_bit 40 v), ucast (drop_bit 48 v),
      ucast (drop_bit 56 v)]"

text \<open>
  The readers index their argument; every call in the code comes after a check that the
  slice is long enough.
\<close>

definition Uint16 :: "byte list \<Rightarrow> 16 word" where
  "Uint16 b = ucast (b ! 0) OR push_bit 8 (ucast (b ! 1))"

definition Uint32 :: "byte list \<Rightarrow> 32 word" where
  "Uint32 b = ucast (b ! 0) OR push_bit 8 (ucast (b ! 1)) OR push_bit 16 (ucast (b ! 2))
              OR push_bit 24 (ucast (b ! 3))"

definition Uint64 :: "byte list \<Rightarrow> 64 word" where
  "Uint64 b = ucast (b ! 0) OR push_bit 8 (ucast (b ! 1)) OR push_bit 16 (ucast (b ! 2))
              OR push_bit 24 (ucast (b ! 3)) OR push_bit 32 (ucast (b ! 4))
              OR push_bit 40 (ucast (b ! 5)) OR push_bit 48 (ucast (b ! 6))
              OR push_bit 56 (ucast (b ! 7))"

text \<open>\<^verbatim>\<open>bytes.IndexByte\<close>: the index of the first occurrence, \<open>None\<close> for \<^verbatim>\<open>-1\<close>.\<close>

fun IndexByte :: "byte list \<Rightarrow> byte \<Rightarrow> nat option" where
  "IndexByte [] c = None"
| "IndexByte (b # bs) c =
     (if b = c then Some 0
      else (case IndexByte bs c of None \<Rightarrow> None | Some i \<Rightarrow> Some (Suc i)))"

section \<open>Type conversion helpers (properties.go)\<close>

definition toInt64 :: "extern \<Rightarrow> gvalue \<Rightarrow> 64 word option" where
  "toInt64 L v =
     (case v of
        VInt val \<Rightarrow> Some val
      | VInt8 val \<Rightarrow> Some (scast val)
      | VInt16 val \<Rightarrow> Some (scast val)
      | VInt32 val \<Rightarrow> Some (scast val)
      | VInt64 val \<Rightarrow> Some val
      | VUint val \<Rightarrow> Some val
      | VUint8 val \<Rightarrow> Some (ucast val)
      | VUint16 val \<Rightarrow> Some (ucast val)
      | VUint32 val \<Rightarrow> Some (ucast val)
      | VUint64 val \<Rightarrow> Some val
      | VFloat32 val \<Rightarrow> Some (float32_to_int64 L val)
      | VFloat64 val \<Rightarrow> Some (float64_to_int64 L val)
      | VNumber val \<Rightarrow>
          (case Number_Int64 L val of
             Some i \<Rightarrow> Some i
           | None \<Rightarrow>
               (case Number_Float64 L val of
                  Some f \<Rightarrow> Some (float64_to_int64 L f)
                | None \<Rightarrow> None))
      | _ \<Rightarrow> None)"

definition toUint64 :: "extern \<Rightarrow> gvalue \<Rightarrow> 64 word option" where
  "toUint64 L v =
     (case v of
        VUint val \<Rightarrow> Some val
      | VUint8 val \<Rightarrow> Some (ucast val)
      | VUint16 val \<Rightarrow> Some (ucast val)
      | VUint32 val \<Rightarrow> Some (ucast val)
      | VUint64 val \<Rightarrow> Some val
      | VInt val \<Rightarrow> if 0 \<le> sint val then Some val else None
      | VInt64 val \<Rightarrow> if 0 \<le> sint val then Some val else None
      | VFloat64 val \<Rightarrow>
          if float64_ge_zero L val then Some (float64_to_uint64 L val) else None
      | VNumber val \<Rightarrow>
          (case Number_Int64 L val of
             Some i \<Rightarrow> if 0 \<le> sint i then Some i else None
           | None \<Rightarrow> None)
      | _ \<Rightarrow> None)"

definition toFloat64 :: "extern \<Rightarrow> gvalue \<Rightarrow> 64 word option" where
  "toFloat64 L v =
     (case v of
        VFloat32 val \<Rightarrow> Some (float32_to_float64 L val)
      | VFloat64 val \<Rightarrow> Some val
      | VInt val \<Rightarrow> Some (int64_to_float64 L val)
      | VInt64 val \<Rightarrow> Some (int64_to_float64 L val)
      | VUint val \<Rightarrow> Some (uint64_to_float64 L val)
      | VUint64 val \<Rightarrow> Some (uint64_to_float64 L val)
      | VNumber val \<Rightarrow> Number_Float64 L val
      | _ \<Rightarrow> None)"

definition toString :: "extern \<Rightarrow> gvalue \<Rightarrow> byte list" where
  "toString L v =
     (case v of
        VString val \<Rightarrow> val
      | VBytes val \<Rightarrow> val
      | _ \<Rightarrow> (case json_Marshal L v of None \<Rightarrow> [] | Some b \<Rightarrow> b))"

section \<open>Encoding a record (properties.go)\<close>

text \<open>
  Runtime panics of the Go code, and its abort when an allocation cannot be served, are
  values of the model.
\<close>

datatype error =
  IndexOutOfRange | SliceBoundsOutOfRange | VectorReadOutOfRange | OutOfMemory

text \<open>
  \<^verbatim>\<open>writePropertyValue\<close>: the bytes it appends to the buffer. The column is a parameter
  the body never reads: the type it switches on is \<^verbatim>\<open>inferColumnType(value)\<close>.
\<close>

definition writePropertyValue :: "extern \<Rightarrow> gvalue \<Rightarrow> column \<Rightarrow> byte list" where
  "writePropertyValue L value col =
     (let colType = inferColumnType L value in
      case colType of
        ColumnTypeBool \<Rightarrow>
          (case value of VBool v \<Rightarrow> if v then [1] else [0] | _ \<Rightarrow> [])
      | ColumnTypeByte \<Rightarrow>
          (case toInt64 L value of Some v \<Rightarrow> [ucast v] | None \<Rightarrow> [])
      | ColumnTypeUByte \<Rightarrow>
          (case toInt64 L value of Some v \<Rightarrow> [ucast v] | None \<Rightarrow> [])
      | ColumnTypeShort \<Rightarrow>
          (case toInt64 L value of Some v \<Rightarrow> PutUint16 (ucast v) | None \<Rightarrow> [])
      | ColumnTypeUShort \<Rightarrow>
          (case toInt64 L value of Some v \<Rightarrow> PutUint16 (ucast v) | None \<Rightarrow> [])
      | ColumnTypeInt \<Rightarrow>
          (case toInt64 L value of Some v \<Rightarrow> PutUint32 (ucast v) | None \<Rightarrow> [])
      | ColumnTypeUInt \<Rightarrow>
          (case toInt64 L value of Some v \<Rightarrow> PutUint32 (ucast v) | None \<Rightarrow> [])
      | ColumnTypeLong \<Rightarrow>
          (case toInt64 L value of Some v \<Rightarrow> PutUint64 v | None \<Rightarrow> [])
      | ColumnTypeULong \<Rightarrow>
          (case toUint64 L value of Some v \<Rightarrow> PutUint64 v | None \<Rightarrow> [])
      | ColumnTypeFloat \<Rightarrow>
          (case toFloat64 L value of
             Some v \<Rightarrow> PutUint32 (float64_to_float32 L v)
           | None \<Rightarrow> [])
      | ColumnTypeDouble \<Rightarrow>
          (case toFloat64 L value of Some v \<Rightarrow> PutUint64 v | None \<Rightarrow> [])
      | ColumnTypeString \<Rightarrow> toString L value @ [0]
      | ColumnTypeJson \<Rightarrow>
          (case json_Marshal L value of
             Some jsonBytes \<Rightarrow> jsonBytes @ [0]
           | None \<Rightarrow> [123, 125] @ [0])
      | ColumnTypeDateTime \<Rightarrow> toString L value @ [0]
      | ColumnTypeBinary \<Rightarrow>
          (case value of
             VBytes b \<Rightarrow> PutUint32 (word_of_nat (length b)) @ b
           | _ \<Rightarrow> [])
      | ColumnTypeOther _ \<Rightarrow> [])"

text \<open>
  One pass of the loop of \<^verbatim>\<open>encodeProperties\<close>: the bytes written for one entry.
  \<^verbatim>\<open>columnMap\<close> is a Go map from name to \<^verbatim>\<open>int\<close>; \<^verbatim>\<open>columns[colIndex]\<close> panics when
  the index is outside the slice.
\<close>

definition encode_entry ::
  "extern \<Rightarrow> column list \<Rightarrow> (string \<rightharpoonup> int) \<Rightarrow> string \<times> gvalue \<Rightarrow> error + byte list" where
  "encode_entry L columns columnMap e =
     (let name = fst e; value = snd e in
      if value = VNil then Inr []
      else (case columnMap name of
              None \<Rightarrow> Inr []
            | Some colIndex \<Rightarrow>
                if colIndex < 0 \<or> int (length columns) \<le> colIndex then Inl IndexOutOfRange
                else Inr (PutUint16 (word_of_int colIndex)
                          @ writePropertyValue L value (columns ! nat colIndex))))"

fun encode_loop ::
  "extern \<Rightarrow> column list \<Rightarrow> (string \<rightharpoonup> int) \<Rightarrow> Properties \<Rightarrow> byte list \<Rightarrow> error + byte list"
  where
  "encode_loop L columns columnMap [] buf = Inr buf"
| "encode_loop L columns columnMap (e # es) buf =
     (case encode_entry L columns columnMap e of
        Inl err \<Rightarrow> Inl err
      | Inr bs \<Rightarrow> encode_loop L columns columnMap es (buf @ bs))"

definition encodeProperties ::
  "extern \<Rightarrow> Properties \<Rightarrow> column list \<Rightarrow> (string \<rightharpoonup> int) \<Rightarrow> error + byte list" where
  "encodeProperties L props columns columnMap =
     (if props = [] \<or> columns = [] then Inr []
      else encode_loop L columns columnMap props [])"

section \<open>Decoding a record (properties.go)\<close>

text \<open>
  \<^verbatim>\<open>readPropertyValue\<close> returns the value and the number of bytes read. In the Binary
  case \<^verbatim>\<open>4+length\<close> is computed in \<^verbatim>\<open>uint32\<close> and wraps; when the sum is below 4 the
  slice expression \<^verbatim>\<open>data[4 : 4+length]\<close> panics.
\<close>

definition readPropertyValue ::
  "extern \<Rightarrow> byte list \<Rightarrow> ColumnType \<Rightarrow> error + (gvalue \<times> nat)" where
  "readPropertyValue L data colType =
     (case colType of
        ColumnTypeBool \<Rightarrow>
          if length data < 1 then Inr (VNil, 0) else Inr (VBool (data ! 0 \<noteq> 0), 1)
      | ColumnTypeByte \<Rightarrow>
          if length data < 1 then Inr (VNil, 0) else Inr (VInt8 (data ! 0), 1)
      | ColumnTypeUByte \<Rightarrow>
          if length data < 1 then Inr (VNil, 0) else Inr (VUint8 (data ! 0), 1)
      | ColumnTypeShort \<Rightarrow>
          if length data < 2 then Inr (VNil, 0) else Inr (VInt16 (Uint16 (take 2 data)), 2)
      | ColumnTypeUShort \<Rightarrow>
          if length data < 2 then Inr (VNil, 0) else Inr (VUint16 (Uint16 (take 2 data)), 2)
      | ColumnTypeInt \<Rightarrow>
          if length data < 4 then Inr (VNil, 0) else Inr (VInt32 (Uint32 (take 4 data)), 4)
      | ColumnTypeUInt \<Rightarrow>
          if length data < 4 then Inr (VNil, 0) else Inr (VUint32 (Uint32 (take 4 data)), 4)
      | ColumnTypeLong \<Rightarrow>
          if length data < 8 then Inr (VNil, 0) else Inr (VInt64 (Uint64 (take 8 data)), 8)
      | ColumnTypeULong \<Rightarrow>
          if length data < 8 then Inr (VNil, 0) else Inr (VUint64 (Uint64 (take 8 data)), 8)
      | ColumnTypeFloat \<Rightarrow>
          if length data < 4 then Inr (VNil, 0) else Inr (VFloat32 (Uint32 (take 4 data)), 4)
      | ColumnTypeDouble \<Rightarrow>
          if length data < 8 then Inr (VNil, 0) else Inr (VFloat64 (Uint64 (take 8 data)), 8)
      | ColumnTypeString \<Rightarrow>
          (case IndexByte data 0 of
             None \<Rightarrow> Inr (VString data, length data)
           | Some nullIdx \<Rightarrow> Inr (VString (take nullIdx data), nullIdx + 1))
      | ColumnTypeDateTime \<Rightarrow>
          (case IndexByte data 0 of
             None \<Rightarrow> Inr (VString data, length data)
           | Some nullIdx \<Rightarrow> Inr (VString (take nullIdx data), nullIdx + 1))
      | ColumnTypeJson \<Rightarrow>
          (let nullIdx = (case IndexByte data 0 of None \<Rightarrow> length data | Some i \<Rightarrow> i) in
           case json_Unmarshal L (take nullIdx data) of
             None \<Rightarrow> Inr (VString (take nullIdx data), nullIdx + 1)
           | Some jsonValue \<Rightarrow>
               if nullIdx < length data then Inr (jsonValue, nullIdx + 1)
               else Inr (jsonValue, nullIdx))
      | ColumnTypeBinary \<Rightarrow>
          if length data < 4 then Inr (VNil, 0)
          else (let len = Uint32 (take 4 data); hi = (4 + len :: 32 word) in
                if length data < unat hi then Inr (VNil, 0)
                else if unat hi < 4 then Inl SliceBoundsOutOfRange
                else Inr (VBytes (take (unat hi - 4) (drop 4 data)), unat hi))
      | ColumnTypeOther _ \<Rightarrow> Inr (VNil, 0))"

text \<open>
  One pass of the loop of \<^verbatim>\<open>decodeProperties\<close>, entered with \<^verbatim>\<open>offset < len(data)\<close>:
  it leaves the loop (\<open>Break\<close>), goes round again with a new cursor and map
  (\<open>Continue\<close>), or panics. The header is its column vector.
\<close>

datatype iteration =
    Break "string \<rightharpoonup> gvalue"
  | Continue nat "string \<rightharpoonup> gvalue"
  | Panic error

definition decode_iter ::
  "extern \<Rightarrow> byte list \<Rightarrow> column list \<Rightarrow> nat \<Rightarrow> (string \<rightharpoonup> gvalue) \<Rightarrow> iteration" where
  "decode_iter L data columns offset props =
     (if offset + 2 > length data then Break props
      else (let colIndex = Uint16 (take 2 (drop offset data)); offset = offset + 2 in
            if unat colIndex \<ge> length columns then Break props
            else (let col = columns ! unat colIndex;
                      colName = col_name col; colType = col_type col in
                  case readPropertyValue L (drop offset data) colType of
                    Inl err \<Rightarrow> Panic err
                  | Inr (value, bytesRead) \<Rightarrow>
                      if bytesRead = 0 \<and> colType \<noteq> ColumnTypeBool then Break props
                      else Continue (offset + bytesRead) (props(colName \<mapsto> value)))))"

text \<open>
  The loop \<^verbatim>\<open>for offset < len(data)\<close>. Every pass that goes round again has moved the
  cursor forward, which is the termination argument.
\<close>

function decode_loop ::
  "extern \<Rightarrow> byte list \<Rightarrow> column list \<Rightarrow> nat \<Rightarrow> (string \<rightharpoonup> gvalue)
     \<Rightarrow> error + (string \<rightharpoonup> gvalue)" where
  "decode_loop L data columns offset props =
     (if offset < length data then
        (case decode_iter L data columns offset props of
           Break props' \<Rightarrow> Inr props'
         | Panic err \<Rightarrow> Inl err
         | Continue offset' props' \<Rightarrow> decode_loop L data columns offset' props')
      else Inr props)"
  by pat_completeness auto
termination
  by (relation "measure (\<lambda>(L, data, columns, offset, props). length data - offset)")
     (auto simp: decode_iter_def Let_def split: if_splits sum.splits prod.splits)

text \<open>
  \<^verbatim>\<open>decodeProperties\<close>; the header pointer may be \<^verbatim>\<open>nil\<close> (\<open>None\<close>). The \<^verbatim>\<open>nil\<close> map
  returned for empty data is the empty record.
\<close>

definition decodeProperties ::
  "extern \<Rightarrow> byte list \<Rightarrow> column list option \<Rightarrow> error + (string \<rightharpoonup> gvalue)" where
  "decodeProperties L data header =
     (case header of
        None \<Rightarrow> Inr Map.empty
      | Some columns \<Rightarrow>
          if data = [] then Inr Map.empty else decode_loop L data columns 0 Map.empty)"

text \<open>
  The same loop with a bound on the number of passes: \<open>None\<close> when the bound is used up
  before the loop has finished.
\<close>

fun decode_bounded ::
  "nat \<Rightarrow> extern \<Rightarrow> byte list \<Rightarrow> column list \<Rightarrow> nat \<Rightarrow> (string \<rightharpoonup> gvalue)
     \<Rightarrow> (error + (string \<rightharpoonup> gvalue)) option" where
  "decode_bounded 0 L data columns offset props = None"
| "decode_bounded (Suc n) L data columns offset props =
     (if offset < length data then
        (case decode_iter L data columns offset props of
           Break props' \<Rightarrow> Some (Inr props')
         | Panic err \<Rightarrow> Some (Inl err)
         | Continue offset' props' \<Rightarrow> decode_bounded n L data columns offset' props')
      else Some (Inr props))"

text \<open>
  The insertions of the loop, in the order in which it makes them. A pass of the loop
  reads the map only to write one entry into it, so what a pass does is fixed by the
  bytes and the cursor: it leaves the loop (\<open>Stop\<close>), executes
  \<^verbatim>\<open>props[colName] = value\<close> and goes round again with a new cursor (\<open>Insert\<close>), or
  panics (\<open>Abort\<close>). \<open>decode_pass\<close> is \<open>decode_iter\<close> without the map.
\<close>

datatype pass = Stop | Insert nat string gvalue | Abort error

definition decode_pass :: "extern \<Rightarrow> byte list \<Rightarrow> column list \<Rightarrow> nat \<Rightarrow> pass" where
  "decode_pass L data columns offset =
     (if offset + 2 > length data then Stop
      else (let colIndex = Uint16 (take 2 (drop offset data)); offset = offset + 2 in
            if unat colIndex \<ge> length columns then Stop
            else (let col = columns ! unat colIndex;
                      colName = col_name col; colType = col_type col in
                  case readPropertyValue L (drop offset data) colType of
                    Inl err \<Rightarrow> Abort err
                  | Inr (value, bytesRead) \<Rightarrow>
                      if bytesRead = 0 \<and> colType \<noteq> ColumnTypeBool then Stop
                      else Insert (offset + bytesRead) colName value)))"

text \<open>
  The loop \<^verbatim>\<open>for offset < len(data)\<close> again, collecting the pairs it assigns instead of
  assigning them, and \<open>record_of\<close>, the map that the assignments
  \<^verbatim>\<open>props[colName] = value\<close> build from the empty map, a later one overwriting an
  earlier one under the same name.
\<close>

function decode_entries ::
  "extern \<Rightarrow> byte list \<Rightarrow> column list \<Rightarrow> nat \<Rightarrow> error + (string \<times> gvalue) list" where
  "decode_entries L data columns offset =
     (if offset < length data then
        (case decode_pass L data columns offset of
           Stop \<Rightarrow> Inr []
         | Abort err \<Rightarrow> Inl err
         | Insert offset' colName value \<Rightarrow>
             (case decode_entries L data columns offset' of
                Inl err \<Rightarrow> Inl err
              | Inr es \<Rightarrow> Inr ((colName, value) # es)))
      else Inr [])"
  by pat_completeness auto
termination
  by (relation "measure (\<lambda>(L, data, columns, offset). length data - offset)")
     (auto simp: decode_pass_def Let_def split: if_splits sum.splits prod.splits)

definition record_of :: "(string \<times> gvalue) list \<Rightarrow> (string \<rightharpoonup> gvalue)" where
  "record_of es = fold (\<lambda>e props. props(fst e \<mapsto> snd e)) es Map.empty"

text \<open>
  An instance of the external functions for the concrete examples below, none of which
  reaches one of them: every parser and \<^verbatim>\<open>Marshal\<close> report an error and every numeric
  conversion is a cast of the bits.
\<close>

definition example_extern :: extern where
  "example_extern =
     \<lparr>json_Marshal = (\<lambda>_. None), json_Unmarshal = (\<lambda>_. None),
      Number_Int64 = (\<lambda>_. None), Number_Float64 = (\<lambda>_. None),
      float32_to_float64 = ucast, float64_to_float32 = ucast,
      float32_to_int64 = ucast, float64_to_int64 = (\<lambda>x. x),
      float64_to_uint64 = (\<lambda>x. x), int64_to_float64 = (\<lambda>x. x),
      uint64_to_float64 = (\<lambda>x. x), float64_ge_zero = (\<lambda>_. True)\<rparr>"

text \<open>
  How the read of a prefix \<open>d'\<close> of \<open>d\<close> relates to the read of \<open>d\<close>: it is the same
  read, or it reads nothing where a zero-byte read ends the loop, or it has used up the
  prefix while the read of \<open>d\<close> does not end the loop.
\<close>

definition truncated_read ::
  "extern \<Rightarrow> byte list \<Rightarrow> byte list \<Rightarrow> ColumnType \<Rightarrow> bool" where
  "truncated_read L d' d ct =
     (readPropertyValue L d' ct = readPropertyValue L d ct \<or>
      (\<exists>v' r' v r. readPropertyValue L d' ct = Inr (v', r') \<and>
          readPropertyValue L d ct = Inr (v, r) \<and>
          ((r' = 0 \<and> ct \<noteq> ColumnTypeBool) \<or>
           (length d' \<le> r' \<and> (r \<noteq> 0 \<or> ct = ColumnTypeBool)))))"

section \<open>Geometries and their packed form (geometry.go)\<close>

text \<open>
  A coordinate is a \<^verbatim>\<open>float64\<close>, kept as its IEEE-754 bit pattern: the packer only
  copies coordinates. \<^verbatim>\<open>orb.Point\<close> is a pair of them. \<^verbatim>\<open>orb.Geometry\<close> is an interface
  that only the types of package \<^verbatim>\<open>orb\<close> implement; \<open>NilGeometry\<close> is its \<^verbatim>\<open>nil\<close> value.
\<close>

type_synonym float64 = "64 word"
type_synonym point = "float64 \<times> float64"

datatype Geometry =
    Point point
  | MultiPoint "point list"
  | LineString "point list"
  | MultiLineString "point list list"
  | Ring "point list"
  | Polygon "point list list"
  | MultiPolygon "point list list list"
  | Collection "Geometry list"
  | Bound point point
  | NilGeometry

text \<open>\<^verbatim>\<open>flattypes.GeometryType\<close>, the enumeration of the FlatGeobuf schema.\<close>

datatype GeometryType =
    GeometryTypeUnknown | GeometryTypePoint | GeometryTypeLineString | GeometryTypePolygon
  | GeometryTypeMultiPoint | GeometryTypeMultiLineString | GeometryTypeMultiPolygon
  | GeometryTypeGeometryCollection | GeometryTypeCircularString | GeometryTypeCompoundCurve
  | GeometryTypeCurvePolygon | GeometryTypeMultiCurve | GeometryTypeMultiSurface
  | GeometryTypeCurve | GeometryTypeSurface | GeometryTypePolyhedralSurface
  | GeometryTypeTIN | GeometryTypeTriangle

text \<open>
  A packed geometry: type tag, flat coordinates, ends and parts. The writer fills a
  \<^verbatim>\<open>writer.Geometry\<close> and the reader sees a \<^verbatim>\<open>flattypes.Geometry\<close> through accessors;
  the serialisation between the two belongs to the FlatGeobuf library, and the model
  takes the reader to see the fields the writer set (a field never set is empty).
\<close>

datatype packed =
  Packed (geom_type: GeometryType) (geom_xy: "float64 list") (geom_ends: "32 word list")
    (geom_parts: "packed list")

section \<open>Packing (geometry.go)\<close>

text \<open>The loop \<^verbatim>\<open>for _, p := range ps { xy = append(xy, p[0], p[1]) }\<close>.\<close>

definition append_points :: "float64 list \<Rightarrow> point list \<Rightarrow> float64 list" where
  "append_points xy ps = fold (\<lambda>p xy. xy @ [fst p, snd p]) ps xy"

definition lineStringToXY :: "point list \<Rightarrow> float64 list" where
  "lineStringToXY ls = append_points [] ls"

definition ringToXY :: "point list \<Rightarrow> float64 list" where
  "ringToXY r = append_points [] r"

text \<open>
  The second loop of \<^verbatim>\<open>multiLineStringToXYEnds\<close> and of \<^verbatim>\<open>polygonToXYEnds\<close>, which
  are the same code: \<^verbatim>\<open>cumulative\<close> is a \<^verbatim>\<open>uint32\<close>, so the sum wraps.
\<close>

fun xy_ends_loop ::
  "point list list \<Rightarrow> float64 list \<Rightarrow> 32 word list \<Rightarrow> 32 word
     \<Rightarrow> float64 list \<times> 32 word list" where
  "xy_ends_loop [] xy ends cumulative = (xy, ends)"
| "xy_ends_loop (ls # rest) xy ends cumulative =
     (let xy = append_points xy ls;
          cumulative = cumulative + word_of_nat (length ls);
          ends = ends @ [cumulative]
      in xy_ends_loop rest xy ends cumulative)"

definition multiLineStringToXYEnds :: "point list list \<Rightarrow> float64 list \<times> 32 word list" where
  "multiLineStringToXYEnds mls = xy_ends_loop mls [] [] 0"

definition polygonToXYEnds :: "point list list \<Rightarrow> float64 list \<times> 32 word list" where
  "polygonToXYEnds poly = xy_ends_loop poly [] [] 0"

definition boundToPolygon :: "point \<Rightarrow> point \<Rightarrow> point list list" where
  "boundToPolygon bmin bmax =
     [[(fst bmin, snd bmin), (fst bmax, snd bmin), (fst bmax, snd bmax),
       (fst bmin, snd bmax), (fst bmin, snd bmin)]]"

text \<open>
  \<^verbatim>\<open>geometryToFGB\<close>; \<open>None\<close> is the \<^verbatim>\<open>nil\<close> result. A member of a collection that
  packs to \<^verbatim>\<open>nil\<close> is left out of the parts.
\<close>

fun geometryToFGB :: "Geometry \<Rightarrow> packed option" where
  "geometryToFGB NilGeometry = None"
| "geometryToFGB (Point v) = Some (Packed GeometryTypePoint [fst v, snd v] [] [])"
| "geometryToFGB (MultiPoint v) = Some (Packed GeometryTypeMultiPoint (append_points [] v) [] [])"
| "geometryToFGB (LineString v) = Some (Packed GeometryTypeLineString (lineStringToXY v) [] [])"
| "geometryToFGB (MultiLineString v) =
     (case multiLineStringToXYEnds v of
        (xy, ends) \<Rightarrow> Some (Packed GeometryTypeMultiLineString xy ends []))"
| "geometryToFGB (Ring v) =
     Some (Packed GeometryTypePolygon (ringToXY v) [word_of_nat (length v)] [])"
| "geometryToFGB (Polygon v) =
     (case polygonToXYEnds v of (xy, ends) \<Rightarrow> Some (Packed GeometryTypePolygon xy ends []))"
| "geometryToFGB (MultiPolygon v) =
     Some (Packed GeometryTypeMultiPolygon [] []
       (map (\<lambda>poly. case polygonToXYEnds poly of
                       (xy, ends) \<Rightarrow> Packed GeometryTypePolygon xy ends []) v))"
| "geometryToFGB (Collection v) =
     Some (Packed GeometryTypeGeometryCollection [] []
       (concat (map (\<lambda>child. case geometryToFGB child of
                                None \<Rightarrow> [] | Some childGeom \<Rightarrow> [childGeom]) v)))"
| "geometryToFGB (Bound bmin bmax) =
     (case polygonToXYEnds (boundToPolygon bmin bmax) of
        (xy, ends) \<Rightarrow> Some (Packed GeometryTypePolygon xy ends []))"

section \<open>Unpacking (geometry.go)\<close>

text \<open>
  The loop \<^verbatim>\<open>for i := 0; i < xyLen; i += 2\<close> of \<^verbatim>\<open>multiPointFromXY\<close>,
  \<^verbatim>\<open>lineStringFromXY\<close> and the ends-less branch of \<^verbatim>\<open>polygonFromXYEnds\<close> reads
  \<^verbatim>\<open>Xy(i)\<close> and \<^verbatim>\<open>Xy(i + 1)\<close> without a check of \<^verbatim>\<open>i + 1\<close>: it walks the
  coordinates pair by pair, and with an odd number of them the last read, \<^verbatim>\<open>Xy(xyLen)\<close>,
  leaves the vector. The accessor does not check its index: that read gives whatever
  eight bytes follow the vector in the buffer, as the \<open>y\<close> of a last point, or panics
  when the buffer ends there. What it gives is not determined by the geometry, so it is
  a parameter, \<open>beyond\<close>.

  Two things that unpacking depends on lie outside the geometry and are the parameter
  \<open>E\<close> of the unpacking functions: what the read just past the \<open>xy\<close> vector of a node
  gives, and the largest capacity, in points, that the runtime can still allocate.
\<close>

record environment =
  xy_beyond :: "packed \<Rightarrow> error + float64"
  alloc_points :: nat

fun points_from_xy :: "error + float64 \<Rightarrow> float64 list \<Rightarrow> error + point list" where
  "points_from_xy beyond [] = Inr []"
| "points_from_xy beyond [x] =
     (case beyond of Inl err \<Rightarrow> Inl err | Inr y \<Rightarrow> Inr [(x, y)])"
| "points_from_xy beyond (x # y # rest) =
     (case points_from_xy beyond rest of
        Inl err \<Rightarrow> Inl err
      | Inr ps \<Rightarrow> Inr ((x, y) # ps))"

definition pointFromXY :: "packed \<Rightarrow> Geometry" where
  "pointFromXY fgbGeom =
     (if length (geom_xy fgbGeom) < 2 then Point (0, 0)
      else Point (geom_xy fgbGeom ! 0, geom_xy fgbGeom ! 1))"

definition multiPointFromXY :: "environment \<Rightarrow> packed \<Rightarrow> error + point list" where
  "multiPointFromXY E fgbGeom =
     (if length (geom_xy fgbGeom) < 2 then Inr []
      else points_from_xy (xy_beyond E fgbGeom) (geom_xy fgbGeom))"

definition lineStringFromXY :: "environment \<Rightarrow> packed \<Rightarrow> error + point list" where
  "lineStringFromXY E fgbGeom =
     (if length (geom_xy fgbGeom) < 2 then Inr []
      else points_from_xy (xy_beyond E fgbGeom) (geom_xy fgbGeom))"

text \<open>
  The inner loop \<^verbatim>\<open>for j := start; j < end; j++\<close> of \<^verbatim>\<open>multiLineStringFromXYEnds\<close> and
  \<^verbatim>\<open>polygonFromXYEnds\<close>: vertex \<open>j\<close> is appended when \<^verbatim>\<open>int(j)*2 + 1 < xyLen\<close>, so
  both reads are inside the vector.
\<close>

definition points_between :: "float64 list \<Rightarrow> 32 word \<Rightarrow> 32 word \<Rightarrow> point list" where
  "points_between xy start end' =
     map (\<lambda>j. (xy ! (j * 2), xy ! (j * 2 + 1)))
       (filter (\<lambda>j. j * 2 + 1 < length xy) [unat start..<unat end'])"

text \<open>
  The outer loop \<^verbatim>\<open>for i := 0; i < endsLen; i++\<close>, which reads \<^verbatim>\<open>Ends(i)\<close> in order:
  a recursion over the ends, with \<^verbatim>\<open>start\<close> carried along. Each pass begins with
  \<^verbatim>\<open>make(orb.Ring, 0, end-start)\<close>, and \<^verbatim>\<open>end-start\<close> is a \<^verbatim>\<open>uint32\<close>: the capacity is
  not bounded by the coordinates at hand, and when an end is below the one before it
  the difference wraps to nearly \<open>2 ^ 32\<close> points. The program aborts with out of
  memory when the runtime cannot allocate the capacity. A capacity of no more points
  than the node's own \<open>xy\<close> holds is taken to be granted, like every other allocation
  of the code, which is of the size of the data at hand; a larger one is granted up to
  \<open>alloc_points\<close>.
\<close>

fun lines_from_ends ::
  "nat \<Rightarrow> float64 list \<Rightarrow> 32 word list \<Rightarrow> 32 word \<Rightarrow> error + point list list" where
  "lines_from_ends limit xy [] start = Inr []"
| "lines_from_ends limit xy (end' # rest) start =
     (if max limit (length xy div 2) < unat (end' - start) then Inl OutOfMemory
      else (case lines_from_ends limit xy rest end' of
              Inl err \<Rightarrow> Inl err
            | Inr ls \<Rightarrow> Inr (points_between xy start end' # ls)))"

definition multiLineStringFromXYEnds ::
  "environment \<Rightarrow> packed \<Rightarrow> error + point list list" where
  "multiLineStringFromXYEnds E fgbGeom =
     (if length (geom_xy fgbGeom) < 2 \<or> geom_ends fgbGeom = [] then
        (if length (geom_xy fgbGeom) \<ge> 2 then
           (case lineStringFromXY E fgbGeom of Inl err \<Rightarrow> Inl err | Inr ls \<Rightarrow> Inr [ls])
         else Inr [])
      else lines_from_ends (alloc_points E) (geom_xy fgbGeom) (geom_ends fgbGeom) 0)"

definition polygonFromXYEnds ::
  "environment \<Rightarrow> packed \<Rightarrow> error + point list list" where
  "polygonFromXYEnds E fgbGeom =
     (if length (geom_xy fgbGeom) < 2 then Inr []
      else if geom_ends fgbGeom = [] then
        (case points_from_xy (xy_beyond E fgbGeom) (geom_xy fgbGeom) of
           Inl err \<Rightarrow> Inl err
         | Inr ring \<Rightarrow> Inr [ring])
      else lines_from_ends (alloc_points E) (geom_xy fgbGeom) (geom_ends fgbGeom) 0)"

text \<open>
  The loop of \<^verbatim>\<open>multiPolygonFromParts\<close> over the parts: every part is read as a
  polygon, whatever its type tag, and kept when it has a ring.
\<close>

fun polygons_from_parts ::
  "environment \<Rightarrow> packed list \<Rightarrow> error + point list list list" where
  "polygons_from_parts E [] = Inr []"
| "polygons_from_parts E (part # rest) =
     (case polygonFromXYEnds E part of
        Inl err \<Rightarrow> Inl err
      | Inr poly \<Rightarrow>
          (case polygons_from_parts E rest of
             Inl err \<Rightarrow> Inl err
           | Inr mp \<Rightarrow> Inr (if length poly > 0 then poly # mp else mp)))"

definition multiPolygonFromParts ::
  "environment \<Rightarrow> packed \<Rightarrow> error + point list list list" where
  "multiPolygonFromParts E fgbGeom =
     (if geom_parts fgbGeom = [] then
        (case polygonFromXYEnds E fgbGeom of
           Inl err \<Rightarrow> Inl err
         | Inr poly \<Rightarrow> if length poly > 0 then Inr [poly] else Inr [])
      else polygons_from_parts E (geom_parts fgbGeom))"

text \<open>The geometries of a list of results, up to the first error; \<^verbatim>\<open>nil\<close> is left out.\<close>

fun collect_geometries :: "(error + Geometry) list \<Rightarrow> error + Geometry list" where
  "collect_geometries [] = Inr []"
| "collect_geometries (r # rs) =
     (case r of
        Inl err \<Rightarrow> Inl err
      | Inr geom \<Rightarrow>
          (case collect_geometries rs of
             Inl err \<Rightarrow> Inl err
           | Inr coll \<Rightarrow> Inr (if geom \<noteq> NilGeometry then geom # coll else coll)))"

text \<open>
  \<^verbatim>\<open>geometryFromFGB\<close> and \<^verbatim>\<open>collectionFromParts\<close>, which call each other; \<open>None\<close> is
  the \<^verbatim>\<open>nil\<close> pointer.
\<close>

function geometryFromFGB ::
    "environment \<Rightarrow> packed option \<Rightarrow> error + Geometry"
  and collectionFromParts ::
    "environment \<Rightarrow> packed \<Rightarrow> error + Geometry list" where
  "geometryFromFGB E None = Inr NilGeometry"
| "geometryFromFGB E (Some fgbGeom) =
     (case geom_type fgbGeom of
        GeometryTypePoint \<Rightarrow> Inr (pointFromXY fgbGeom)
      | GeometryTypeMultiPoint \<Rightarrow>
          (case multiPointFromXY E fgbGeom of
             Inl err \<Rightarrow> Inl err | Inr mp \<Rightarrow> Inr (MultiPoint mp))
      | GeometryTypeLineString \<Rightarrow>
          (case lineStringFromXY E fgbGeom of
             Inl err \<Rightarrow> Inl err | Inr ls \<Rightarrow> Inr (LineString ls))
      | GeometryTypeMultiLineString \<Rightarrow>
          (case multiLineStringFromXYEnds E fgbGeom of
             Inl err \<Rightarrow> Inl err | Inr mls \<Rightarrow> Inr (MultiLineString mls))
      | GeometryTypePolygon \<Rightarrow>
          (case polygonFromXYEnds E fgbGeom of
             Inl err \<Rightarrow> Inl err | Inr poly \<Rightarrow> Inr (Polygon poly))
      | GeometryTypeMultiPolygon \<Rightarrow>
          (case multiPolygonFromParts E fgbGeom of
             Inl err \<Rightarrow> Inl err | Inr mp \<Rightarrow> Inr (MultiPolygon mp))
      | GeometryTypeGeometryCollection \<Rightarrow>
          (case collectionFromParts E fgbGeom of
             Inl err \<Rightarrow> Inl err | Inr coll \<Rightarrow> Inr (Collection coll))
      | _ \<Rightarrow> Inr NilGeometry)"
| "collectionFromParts E fgbGeom =
     (if geom_parts fgbGeom = [] then Inr []
      else collect_geometries
             (map (\<lambda>part. geometryFromFGB E (Some part)) (geom_parts fgbGeom)))"
  by pat_completeness auto
termination
proof (relation "measure (\<lambda>x. case x of
                            Inl (E, None) \<Rightarrow> 0
                          | Inl (E, Some g) \<Rightarrow> 2 * size g + 1
                          | Inr (E, g) \<Rightarrow> 2 * size g)", goal_cases)
  case 1
  show ?case by simp
next
  case (2 E fgbGeom)
  show ?case by simp
next
  case (3 E fgbGeom x)
  have "size x < size fgbGeom"
  proof (cases fgbGeom)
    case (Packed t xy ends ps)
    then have "x \<in> set ps" using 3 by simp
    then have "size x \<le> size_list size ps"
      by (rule size_list_estimation') simp
    then show ?thesis using Packed by simp
  qed
  then show ?case by simp
qed

section \<open>What schema inference computes, for stating its properties\<close>

text \<open>
  The inferred types of all values observed under a name, in the order the two loops
  visit them; a \<^verbatim>\<open>nil\<close> value is inferred as String like any other value.
\<close>

definition observed_types :: "extern \<Rightarrow> Properties list \<Rightarrow> string \<Rightarrow> ColumnType list" where
  "observed_types L features name =
     map (\<lambda>e. inferColumnType L (snd e)) (filter (\<lambda>e. fst e = name) (concat features))"

text \<open>
  The same list restricted to the values that are not \<^verbatim>\<open>nil\<close>: what the specification
  says takes part in promotion.
\<close>

definition nonnull_types :: "extern \<Rightarrow> Properties list \<Rightarrow> string \<Rightarrow> ColumnType list" where
  "nonnull_types L features name =
     map (\<lambda>e. inferColumnType L (snd e))
       (filter (\<lambda>e. fst e = name \<and> snd e \<noteq> VNil) (concat features))"

text \<open>The left-to-right fold of promotion over a list of types; no type for no value.\<close>

fun promote_all :: "ColumnType list \<Rightarrow> ColumnType option" where
  "promote_all [] = None"
| "promote_all (t # ts) = Some (foldl promoteColumnType t ts)"

text \<open>The state of \<^verbatim>\<open>inferColumns\<close> after visiting a sequence of entries.\<close>

definition scan_entries :: "extern \<Rightarrow> Properties \<Rightarrow> infer_state" where
  "scan_entries L es = fold (infer_entry L) es \<lparr>columnTypes = Map.empty, columnOrder = []\<rparr>"

section \<open>What packing computes, for stating its properties\<close>

text \<open>The coordinates of a sequence of points, in order: \<open>x\<close> then \<open>y\<close> of each.\<close>

definition flat :: "point list \<Rightarrow> float64 list" where
  "flat ps = concat (map (\<lambda>p. [fst p, snd p]) ps)"

text \<open>
  The ends that the packing loop appends for a sequence of lines or rings when it starts
  with the counter at \<open>c\<close>: the running sum of their lengths, in \<^verbatim>\<open>uint32\<close>.
\<close>

fun cumulative_ends :: "point list list \<Rightarrow> 32 word \<Rightarrow> 32 word list" where
  "cumulative_ends [] c = []"
| "cumulative_ends (l # ls) c =
     (c + word_of_nat (length l)) # cumulative_ends ls (c + word_of_nat (length l))"

text \<open>
  The geometries that the round trip reproduces exactly. A MultiLineString or Polygon
  has no line or ring at all, or at least one point; a polygon of a MultiPolygon and a
  lone Ring have at least one point; no member of a Collection is \<^verbatim>\<open>nil\<close>; and the
  points of one line string set or polygon number fewer than \<open>2 ^ 32\<close>, so that the ends
  do not wrap.
\<close>

definition exact_lines :: "point list list \<Rightarrow> bool" where
  "exact_lines ls = ((ls = [] \<or> concat ls \<noteq> []) \<and> length (concat ls) < 2 ^ 32)"

fun round_trips :: "Geometry \<Rightarrow> bool" where
  "round_trips (Point v) = True"
| "round_trips (MultiPoint v) = True"
| "round_trips (LineString v) = True"
| "round_trips (MultiLineString v) = exact_lines v"
| "round_trips (Ring v) = (v \<noteq> [] \<and> length v < 2 ^ 32)"
| "round_trips (Polygon v) = exact_lines v"
| "round_trips (MultiPolygon v) =
     (\<forall>poly\<in>set v. concat poly \<noteq> [] \<and> length (concat poly) < 2 ^ 32)"
| "round_trips (Collection v) = (\<forall>child\<in>set v. round_trips child)"
| "round_trips (Bound bmin bmax) = True"
| "round_trips NilGeometry = False"

text \<open>
  What the round trip gives back: the geometry itself, except that a Bound comes back
  as its five-point polygon and a lone Ring as a polygon of that ring, also as members
  of a Collection.
\<close>

fun unpacked :: "Geometry \<Rightarrow> Geometry" where
  "unpacked (Ring v) = Polygon [v]"
| "unpacked (Bound bmin bmax) = Polygon (boundToPolygon bmin bmax)"
| "unpacked (Collection v) = Collection (map unpacked v)"
| "unpacked g = g"

text \<open>
  The \<^verbatim>\<open>float64\<close> values 0, 2, 8 and 10 as bit patterns, and the polygon of the
  specification's scenario C.
\<close>

definition coord_0 :: float64 where "coord_0 = 0"
definition coord_2 :: float64 where "coord_2 = 0x4000000000000000"
definition coord_8 :: float64 where "coord_8 = 0x4020000000000000"
definition coord_10 :: float64 where "coord_10 = 0x4024000000000000"

definition scenario_C :: "point list list" where
  "scenario_C =
     [[(coord_0, coord_0), (coord_10, coord_0), (coord_10, coord_10), (coord_0, coord_10), (coord_0, coord_0)],
      [(coord_2, coord_2), (coord_8, coord_2), (coord_8, coord_8), (coord_2, coord_8), (coord_2, coord_2)]]"

text \<open>
  An environment for the concrete examples below, the most adverse one: the read past
  the vector panics, and no capacity beyond the node's own points is granted.
\<close>

definition example_environment :: environment where
  "example_environment = \<lparr>xy_beyond = (\<lambda>_. Inl VectorReadOutOfRange), alloc_points = 0\<rparr>"

section \<open>Properties of type promotion\<close>

lemma numericTypes_inj:
  "numericTypes a = Some r \<Longrightarrow> numericTypes b = Some r \<Longrightarrow> a = b"
  by (cases a; cases b; simp)

text \<open>
  Claim C8. Type promotion is commutative and idempotent: for every pair of column types
  \<open>a\<close> and \<open>b\<close>, \<open>promoteColumnType a b\<close> equals \<open>promoteColumnType b a\<close>, and
  \<open>promoteColumnType a a\<close> equals \<open>a\<close>.
\<close>

theorem promoteColumnType_comm_idem:
  "promoteColumnType a b = promoteColumnType b a \<and> promoteColumnType a a = a"
proof
  show "promoteColumnType a b = promoteColumnType b a"
  proof (cases "a = b")
    case True
    then show ?thesis by simp
  next
    case False
    have "rankA \<noteq> rankB"
      if "numericTypes a = Some rankA" "numericTypes b = Some rankB" for rankA rankB
      using that False numericTypes_inj by blast
    then show ?thesis
      using False
      by (auto simp: promoteColumnType_def split: option.splits)
  qed
  show "promoteColumnType a a = a"
    by (simp add: promoteColumnType_def)
qed

section \<open>Properties of the decode loop\<close>

declare decode_loop.simps [simp del]

lemma decode_iter_Continue:
  assumes "decode_iter L data cols off ps = Continue off' ps'"
  shows "off + 2 \<le> off'" and "off + 2 \<le> length data"
  using assms
  by (auto simp: decode_iter_def Let_def split: if_splits sum.splits prod.splits)

lemma decode_bounded_loop:
  "(length data - off) div 2 < n \<Longrightarrow>
     decode_bounded n L data cols off ps = Some (decode_loop L data cols off ps)"
proof (induction n arbitrary: off ps)
  case 0
  then show ?case by simp
next
  case (Suc n)
  show ?case
  proof (cases "off < length data")
    case False
    then show ?thesis by (simp add: decode_loop.simps [of L data cols off ps])
  next
    case True
    show ?thesis
    proof (cases "decode_iter L data cols off ps")
      case (Continue off' ps')
      have adv: "off + 2 \<le> off'" "off + 2 \<le> length data"
        using decode_iter_Continue [OF Continue] by simp_all
      then have "(length data - off') div 2 < n"
        using Suc.prems by (cases "off' \<le> length data") (simp_all, linarith?)
      then have "decode_bounded n L data cols off' ps' = Some (decode_loop L data cols off' ps')"
        by (rule Suc.IH)
      then show ?thesis
        using True Continue by (simp add: decode_loop.simps [of L data cols off ps])
    qed (use True in \<open>simp_all add: decode_loop.simps [of L data cols off ps]\<close>)
  qed
qed

lemma decode_loop_dom:
  "decode_loop L data cols off ps = Inr r \<Longrightarrow> dom ps \<subseteq> dom r"
proof (induction L data cols off ps rule: decode_loop.induct)
  case (1 L data cols off ps)
  show ?case
  proof (cases "off < length data")
    case False
    then show ?thesis using "1.prems" by (simp add: decode_loop.simps [of L data cols off ps])
  next
    case True
    show ?thesis
    proof (cases "decode_iter L data cols off ps")
      case (Break p)
      then have "p = ps"
        by (auto simp: decode_iter_def Let_def split: if_splits sum.splits prod.splits)
      then show ?thesis
        using True Break "1.prems" by (simp add: decode_loop.simps [of L data cols off ps])
    next
      case (Continue off' ps')
      then have "dom ps \<subseteq> dom ps'"
        by (auto simp: decode_iter_def Let_def split: if_splits sum.splits prod.splits)
      moreover have "dom ps' \<subseteq> dom r"
        using "1.IH" [OF True Continue] "1.prems" True Continue
        by (simp add: decode_loop.simps [of L data cols off ps])
      ultimately show ?thesis by blast
    next
      case (Panic e)
      then show ?thesis
        using True "1.prems" by (simp add: decode_loop.simps [of L data cols off ps])
    qed
  qed
qed


lemma IndexByte_Some: "IndexByte d c = Some i \<Longrightarrow> i < length d \<and> d ! i = c"
  by (induction d arbitrary: i) (auto split: if_splits option.splits)

lemma IndexByte_take_Some:
  "IndexByte (take k d) c = Some i \<Longrightarrow> IndexByte d c = Some i \<and> take i (take k d) = take i d"
proof (induction d arbitrary: k i)
  case Nil
  then show ?case by simp
next
  case (Cons b d)
  then show ?case
    by (cases k) (auto split: if_splits option.splits)
qed

lemma IndexByte_nonempty_pos:
  "d \<noteq> [] \<Longrightarrow> (case IndexByte d c of None \<Rightarrow> length d | Some i \<Rightarrow> i + 1) \<noteq> 0"
  by (cases "IndexByte d c") auto

lemma read_prefix:
  assumes "ct \<noteq> ColumnTypeBinary"
  shows "truncated_read L (take k d) d ct"
proof (cases "length d \<le> k")
  case True
  then show ?thesis by (simp add: truncated_read_def)
next
  case False
  then have k: "k < length d" "length (take k d) = k" "d \<noteq> []" by auto
  show ?thesis
  proof (cases ct)
    case ColumnTypeString
    show ?thesis
    proof (cases "IndexByte (take k d) 0")
      case None
      with ColumnTypeString k IndexByte_nonempty_pos [of d 0] show ?thesis
        by (cases "IndexByte d 0"; cases "k = 0")
           (auto simp: truncated_read_def readPropertyValue_def)
    next
      case (Some i)
      with IndexByte_take_Some [OF Some] ColumnTypeString show ?thesis
        by (simp add: truncated_read_def readPropertyValue_def)
    qed
  next
    case ColumnTypeDateTime
    show ?thesis
    proof (cases "IndexByte (take k d) 0")
      case None
      with ColumnTypeDateTime k IndexByte_nonempty_pos [of d 0] show ?thesis
        by (cases "IndexByte d 0"; cases "k = 0")
           (auto simp: truncated_read_def readPropertyValue_def)
    next
      case (Some i)
      with IndexByte_take_Some [OF Some] ColumnTypeDateTime show ?thesis
        by (simp add: truncated_read_def readPropertyValue_def)
    qed
  next
    case ColumnTypeJson
    show ?thesis
    proof (cases "IndexByte (take k d) 0")
      case None
      have "\<exists>v r. readPropertyValue L d ct = Inr (v, r) \<and> r \<noteq> 0"
        using ColumnTypeJson k IndexByte_Some [of d 0]
        by (cases "IndexByte d 0")
           (auto simp: readPropertyValue_def Let_def split: option.splits)
      moreover have "\<exists>v' r'. readPropertyValue L (take k d) ct = Inr (v', r') \<and> k \<le> r'"
        using ColumnTypeJson k None
        by (auto simp: readPropertyValue_def Let_def split: option.splits)
      ultimately show ?thesis
        using k by (auto simp: truncated_read_def)
    next
      case (Some i)
      have "i < k" using IndexByte_Some [OF Some] k by simp
      moreover have "IndexByte d 0 = Some i" "take i (take k d) = take i d"
        using IndexByte_take_Some [OF Some] by simp_all
      ultimately have "readPropertyValue L (take k d) ct = readPropertyValue L d ct"
        using ColumnTypeJson Some k
        by (simp add: readPropertyValue_def Let_def split: option.splits)
      then show ?thesis by (simp add: truncated_read_def)
    qed
  next
    case ColumnTypeBinary
    with assms show ?thesis by simp
  qed (use k in \<open>auto simp: truncated_read_def readPropertyValue_def min_def\<close>)
qed


lemma read_no_panic:
  "ct \<noteq> ColumnTypeBinary \<Longrightarrow> \<exists>v r. readPropertyValue L d ct = Inr (v, r)"
  by (cases ct) (auto simp: readPropertyValue_def Let_def split: option.splits)

lemma decode_iter_step:
  assumes "off + 2 \<le> length data" "i = unat (Uint16 (take 2 (drop off data)))"
    "i < length cols"
    "readPropertyValue L (drop (off + 2) data) (col_type (cols ! i)) = Inr (v, r)"
  shows "decode_iter L data cols off ps =
     (if r = 0 \<and> col_type (cols ! i) \<noteq> ColumnTypeBool then Break ps
      else Continue (off + 2 + r) (ps(col_name (cols ! i) \<mapsto> v)))"
  using assms by (simp add: decode_iter_def Let_def)

lemma decode_iter_Panic:
  assumes "decode_iter L data cols off ps = Panic e"
  shows "\<exists>i d. i < length cols \<and> readPropertyValue L d (col_type (cols ! i)) = Inl e"
proof -
  define i where "i = unat (Uint16 (take 2 (drop off data)))"
  have "i < length cols \<and>
      readPropertyValue L (drop (off + 2) data) (col_type (cols ! i)) = Inl e"
    using assms unfolding i_def
    by (auto simp: decode_iter_def Let_def split: if_splits sum.splits prod.splits)
  then show ?thesis by blast
qed

lemma decode_iter_prefix:
  assumes nb: "\<forall>c\<in>set cols. col_type c \<noteq> ColumnTypeBinary"
  shows "decode_iter L (take n data) cols off ps1 = Break ps1
       \<or> (\<exists>off' name v.
            decode_iter L (take n data) cols off ps1 = Continue off' (ps1(name \<mapsto> v)) \<and>
            decode_iter L data cols off ps2 = Continue off' (ps2(name \<mapsto> v)))
       \<or> (\<exists>off' name v' off2 v.
            decode_iter L (take n data) cols off ps1 = Continue off' (ps1(name \<mapsto> v')) \<and>
            length (take n data) \<le> off' \<and>
            decode_iter L data cols off ps2 = Continue off2 (ps2(name \<mapsto> v)))"
proof (cases "off + 2 > length (take n data)")
  case True
  then show ?thesis by (simp add: decode_iter_def)
next
  case False
  then have len: "off + 2 \<le> length (take n data)" "off + 2 \<le> length data" "off + 2 \<le> n"
    by auto
  define i where "i = unat (Uint16 (take 2 (drop off data)))"
  have idx: "take 2 (drop off (take n data)) = take 2 (drop off data)"
    using len by (simp add: drop_take min_def)
  show ?thesis
  proof (cases "length cols \<le> i")
    case True
    then show ?thesis using len idx by (simp add: decode_iter_def i_def)
  next
    case inrange: False
    define ct where "ct = col_type (cols ! i)"
    define name where "name = col_name (cols ! i)"
    define d where "d = drop (off + 2) data"
    define d' where "d' = drop (off + 2) (take n data)"
    have d': "d' = take (n - (off + 2)) d"
      by (simp add: d'_def d_def drop_take)
    have ctnb: "ct \<noteq> ColumnTypeBinary"
      using nb inrange nth_mem [of i cols] unfolding ct_def by auto
    obtain v' r' where r': "readPropertyValue L d' ct = Inr (v', r')"
      using read_no_panic [OF ctnb] by blast
    obtain v r where r: "readPropertyValue L d ct = Inr (v, r)"
      using read_no_panic [OF ctnb] by blast
    have lenP: "length (take n data) = off + 2 + length d'"
      using len by (simp add: d'_def)
    have it1: "decode_iter L (take n data) cols off ps1 =
        (if r' = 0 \<and> ct \<noteq> ColumnTypeBool then Break ps1
         else Continue (off + 2 + r') (ps1(name \<mapsto> v')))"
      using decode_iter_step [of off "take n data" i cols L v' r' ps1] len(1) idx inrange r'
      unfolding i_def ct_def name_def d'_def by simp
    have it2: "decode_iter L data cols off ps2 =
        (if r = 0 \<and> ct \<noteq> ColumnTypeBool then Break ps2
         else Continue (off + 2 + r) (ps2(name \<mapsto> v)))"
      using decode_iter_step [of off data i cols L v r ps2] len(2) inrange r
      unfolding i_def ct_def name_def d_def by simp
    have "truncated_read L d' d ct"
      unfolding d' by (rule read_prefix [OF ctnb])
    then consider (same) "v' = v" "r' = r"
      | (stop) "r' = 0" "ct \<noteq> ColumnTypeBool"
      | (cut) "length d' \<le> r'" "r \<noteq> 0 \<or> ct = ColumnTypeBool"
      unfolding truncated_read_def using r r' by auto
    then show ?thesis
    proof cases
      case same
      then show ?thesis using it1 it2 by auto
    next
      case stop
      then show ?thesis using it1 by simp
    next
      case cut
      show ?thesis
      proof (cases "r' = 0 \<and> ct \<noteq> ColumnTypeBool")
        case True
        then show ?thesis using it1 by simp
      next
        case False
        then have "decode_iter L (take n data) cols off ps1
            = Continue (off + 2 + r') (ps1(name \<mapsto> v'))"
          using it1 by simp
        moreover have "length (take n data) \<le> off + 2 + r'"
          using cut lenP by simp
        moreover have "decode_iter L data cols off ps2
            = Continue (off + 2 + r) (ps2(name \<mapsto> v))"
          using it2 cut by auto
        ultimately show ?thesis by blast
      qed
    qed
  qed
qed

lemma decode_loop_no_panic:
  assumes "\<forall>c\<in>set cols. col_type c \<noteq> ColumnTypeBinary"
  shows "\<exists>r. decode_loop L data cols off ps = Inr r"
  using assms
proof (induction L data cols off ps rule: decode_loop.induct)
  case (1 L data cols off ps)
  note nb = "1.prems"
  show ?case
  proof (cases "off < length data")
    case False
    then show ?thesis by (simp add: decode_loop.simps [of L data cols off ps])
  next
    case True
    show ?thesis
    proof (cases "decode_iter L data cols off ps")
      case (Break p)
      then show ?thesis using True by (simp add: decode_loop.simps [of L data cols off ps])
    next
      case (Continue off' ps')
      then show ?thesis
        using "1.IH" [OF True Continue nb] True
        by (simp add: decode_loop.simps [of L data cols off ps])
    next
      case (Panic e)
      obtain i d where i: "i < length cols"
        "readPropertyValue L d (col_type (cols ! i)) = Inl e"
        using decode_iter_Panic [OF Panic] by blast
      then have "col_type (cols ! i) \<noteq> ColumnTypeBinary"
        using nb nth_mem [of i cols] by blast
      from read_no_panic [OF this, of L d] i(2) show ?thesis by simp
    qed
  qed
qed

lemma decode_loop_finished:
  "length data \<le> off \<Longrightarrow> decode_loop L data cols off ps = Inr ps"
  by (simp add: decode_loop.simps [of L data cols off ps])

lemma decode_prefix_dom:
  assumes "\<forall>c\<in>set cols. col_type c \<noteq> ColumnTypeBinary"
    and "dom ps1 \<subseteq> dom ps2"
    and "decode_loop L (take n data) cols off ps1 = Inr r1"
    and "decode_loop L data cols off ps2 = Inr r2"
  shows "dom r1 \<subseteq> dom r2"
proof -
  define P where "P = take n data"
  have "dom r1 \<subseteq> dom r2"
    if "decode_loop L P cols off ps1 = Inr r1" "P = take n data"
      "\<forall>c\<in>set cols. col_type c \<noteq> ColumnTypeBinary" "dom ps1 \<subseteq> dom ps2"
      "decode_loop L data cols off ps2 = Inr r2"
    using that
  proof (induction L P cols off ps1 arbitrary: ps2 rule: decode_loop.induct)
    case (1 L P cols off ps1)
    note P = \<open>P = take n data\<close> and nb = \<open>\<forall>c\<in>set cols. col_type c \<noteq> ColumnTypeBinary\<close>
    have full: "dom ps2 \<subseteq> dom r2"
      using "1.prems"(5) by (rule decode_loop_dom)
    show ?case
    proof (cases "off < length P")
      case False
      then have "r1 = ps1"
        using "1.prems"(1) by (simp add: decode_loop.simps [of L P cols off ps1])
      then show ?thesis using full "1.prems"(4) by blast
    next
      case True
      then have offd: "off < length data" using P by simp
      from decode_iter_prefix [OF nb, of L n data off ps1 ps2]
      consider (brk) "decode_iter L P cols off ps1 = Break ps1"
        | (same) off' name v where
            "decode_iter L P cols off ps1 = Continue off' (ps1(name \<mapsto> v))"
            "decode_iter L data cols off ps2 = Continue off' (ps2(name \<mapsto> v))"
        | (cut) off' name v' off2 v where
            "decode_iter L P cols off ps1 = Continue off' (ps1(name \<mapsto> v'))"
            "length P \<le> off'"
            "decode_iter L data cols off ps2 = Continue off2 (ps2(name \<mapsto> v))"
        unfolding P by blast
      then show ?thesis
      proof cases
        case brk
        then have "r1 = ps1"
          using "1.prems"(1) True by (simp add: decode_loop.simps [of L P cols off ps1])
        then show ?thesis using full "1.prems"(4) by blast
      next
        case same
        have a: "decode_loop L P cols off' (ps1(name \<mapsto> v)) = Inr r1"
          using "1.prems"(1) True same(1)
          by (simp add: decode_loop.simps [of L P cols off ps1])
        have b: "decode_loop L data cols off' (ps2(name \<mapsto> v)) = Inr r2"
          using "1.prems"(5) offd same(2)
          by (simp add: decode_loop.simps [of L data cols off ps2])
        have c: "dom (ps1(name \<mapsto> v)) \<subseteq> dom (ps2(name \<mapsto> v))"
          using "1.prems"(4) by auto
        show ?thesis
          by (rule "1.IH" [OF True same(1) a P nb c b])
      next
        case cut
        have "decode_loop L P cols off' (ps1(name \<mapsto> v')) = Inr r1"
          using "1.prems"(1) True cut(1)
          by (simp add: decode_loop.simps [of L P cols off ps1])
        then have r1: "r1 = ps1(name \<mapsto> v')"
          using decode_loop_finished [OF cut(2)] by simp
        have "decode_loop L data cols off2 (ps2(name \<mapsto> v)) = Inr r2"
          using "1.prems"(5) offd cut(3)
          by (simp add: decode_loop.simps [of L data cols off ps2])
        then have "dom (ps2(name \<mapsto> v)) \<subseteq> dom r2"
          by (rule decode_loop_dom)
        then have "insert name (dom ps2) \<subseteq> dom r2" by simp
        moreover have "dom r1 = insert name (dom ps1)" using r1 by simp
        ultimately show ?thesis using "1.prems"(4) by blast
      qed
    qed
  qed
  then show ?thesis using assms P_def by blast
qed

lemma decodeProperties_loop:
  "decodeProperties L data (Some columns) = decode_loop L data columns 0 Map.empty"
  by (simp add: decodeProperties_def decode_loop_finished)

lemma decode_iter_Break:
  assumes "decode_iter L data columns offset props = Break props'"
  shows "props' = props \<and>
     (length data < offset + 2 \<or>
      length columns \<le> unat (Uint16 (take 2 (drop offset data))) \<or>
      (\<exists>v. readPropertyValue L (drop (offset + 2) data)
              (col_type (columns ! unat (Uint16 (take 2 (drop offset data))))) = Inr (v, 0) \<and>
           col_type (columns ! unat (Uint16 (take 2 (drop offset data)))) \<noteq> ColumnTypeBool))"
  using assms
  by (auto simp: decode_iter_def Let_def split: if_splits sum.splits prod.splits)

text \<open>
  The loop is over after at most \<open>length data div 2 + 1\<close> tests of its condition: every
  pass that goes round again has strictly advanced the cursor, and a pass that leaves
  the loop leaves the record as it was, at one of the truncation conditions: fewer than
  2 bytes left, a column index out of range, or a value read that returned zero bytes.
  Against a schema without a Binary column the call always ends with the record.
\<close>

lemma decode_loop_terminates:
  "decode_bounded (Suc (length data div 2)) L data columns 0 Map.empty
     = Some (decodeProperties L data (Some columns)) \<and>
   (\<forall>offset props offset' props'.
      decode_iter L data columns offset props = Continue offset' props' \<longrightarrow> offset < offset') \<and>
   (\<forall>offset props props'.
      decode_iter L data columns offset props = Break props' \<longrightarrow>
        props' = props \<and>
        (length data < offset + 2 \<or>
         length columns \<le> unat (Uint16 (take 2 (drop offset data))) \<or>
         (\<exists>v. readPropertyValue L (drop (offset + 2) data)
              (col_type (columns ! unat (Uint16 (take 2 (drop offset data))))) = Inr (v, 0)))) \<and>
   ((\<forall>c\<in>set columns. col_type c \<noteq> ColumnTypeBinary) \<longrightarrow>
      (\<exists>props. decodeProperties L data (Some columns) = Inr props))"
proof (intro conjI allI impI)
  show "decode_bounded (Suc (length data div 2)) L data columns 0 Map.empty
     = Some (decodeProperties L data (Some columns))"
    using decode_bounded_loop [of data 0 "Suc (length data div 2)" L columns Map.empty]
    by (simp add: decodeProperties_loop)
next
  assume "\<forall>c\<in>set columns. col_type c \<noteq> ColumnTypeBinary"
  from decode_loop_no_panic [OF this, of L data 0 Map.empty]
  show "\<exists>props. decodeProperties L data (Some columns) = Inr props"
    by (simp add: decodeProperties_loop)
next
  fix offset props offset' props'
  assume "decode_iter L data columns offset props = Continue offset' props'"
  from decode_iter_Continue(1) [OF this] show "offset < offset'" by simp
next
  fix offset props props'
  assume b: "decode_iter L data columns offset props = Break props'"
  from decode_iter_Break [OF b] show "props' = props" by simp
  from decode_iter_Break [OF b]
  show "length data < offset + 2 \<or>
         length columns \<le> unat (Uint16 (take 2 (drop offset data))) \<or>
         (\<exists>v. readPropertyValue L (drop (offset + 2) data)
              (col_type (columns ! unat (Uint16 (take 2 (drop offset data))))) = Inr (v, 0))"
    by blast
qed

text \<open>
  Claim C9 says that \<^verbatim>\<open>decodeProperties\<close> terminates for every input byte sequence
  and every header schema, each pass of the loop advancing the cursor or stopping at a
  truncation condition. A pass has a third outcome. In the Binary read the bound
  \<^verbatim>\<open>4+length\<close> is computed in \<^verbatim>\<open>uint32\<close>: for the length bytes \<^verbatim>\<open>FE FF FF FF\<close> it wraps
  to 2, the check \<^verbatim>\<open>len(data) < int(4+length)\<close> lets the four bytes through, and the
  slice expression \<^verbatim>\<open>data[4 : 4+length]\<close>, with bounds 4 and 2, panics. On the six bytes
  \<^verbatim>\<open>00 00 FE FF FF FF\<close> against a schema whose column 0 is Binary the first pass is
  neither an advance of the cursor nor a stop, and the call ends in that panic instead
  of returning a record.
\<close>

theorem decode_binary_length_panics:
  "4 + Uint32 [254, 255, 255, 255] = (2 :: 32 word) \<and>
   readPropertyValue L [254, 255, 255, 255] ColumnTypeBinary = Inl SliceBoundsOutOfRange \<and>
   decode_iter L [0, 0, 254, 255, 255, 255]
     [\<lparr>col_name = ''b'', col_title = ''b'', col_type = ColumnTypeBinary, col_nullable = True\<rparr>]
     0 Map.empty = Panic SliceBoundsOutOfRange \<and>
   decodeProperties L [0, 0, 254, 255, 255, 255]
     (Some [\<lparr>col_name = ''b'', col_title = ''b'', col_type = ColumnTypeBinary,
             col_nullable = True\<rparr>])
     = Inl SliceBoundsOutOfRange"
proof -
  have len: "4 + Uint32 [254, 255, 255, 255] = (2 :: 32 word)"
    by (simp add: Uint32_def)
  have rd: "readPropertyValue L [254, 255, 255, 255] ColumnTypeBinary
      = Inl SliceBoundsOutOfRange"
    by (simp add: readPropertyValue_def Let_def len)
  have it: "decode_iter L [0, 0, 254, 255, 255, 255]
     [\<lparr>col_name = ''b'', col_title = ''b'', col_type = ColumnTypeBinary, col_nullable = True\<rparr>]
     0 Map.empty = Panic SliceBoundsOutOfRange"
    using rd by (simp add: decode_iter_def Uint16_def Let_def)
  have "decodeProperties L [0, 0, 254, 255, 255, 255]
     (Some [\<lparr>col_name = ''b'', col_title = ''b'', col_type = ColumnTypeBinary,
             col_nullable = True\<rparr>])
     = Inl SliceBoundsOutOfRange"
    using it
    by (simp add: decodeProperties_loop
        decode_loop.simps [of L "[0, 0, 254, 255, 255, 255]" _ 0 Map.empty])
  with len rd it show ?thesis by blast
qed

text \<open>
  Claim C10. If the buffer ends exactly after a 2-byte column index that refers to a
  Bool-typed column, the loop inserts that column's name with a \<^verbatim>\<open>nil\<close> value and then
  finishes; for every column type other than Bool, a value read of zero bytes ends the
  loop without inserting an entry.
\<close>

theorem decode_zero_byte_read:
  assumes "offset + 2 \<le> length data"
    and "i = unat (Uint16 (take 2 (drop offset data)))"
    and "i < length columns"
  shows "(col_type (columns ! i) = ColumnTypeBool \<and> offset + 2 = length data \<longrightarrow>
            decode_loop L data columns offset props
              = Inr (props(col_name (columns ! i) \<mapsto> VNil))) \<and>
         (col_type (columns ! i) \<noteq> ColumnTypeBool \<and>
          (\<exists>v. readPropertyValue L (drop (offset + 2) data) (col_type (columns ! i))
                 = Inr (v, 0)) \<longrightarrow>
            decode_loop L data columns offset props = Inr props)"
proof (intro conjI impI)
  assume a: "col_type (columns ! i) = ColumnTypeBool \<and> offset + 2 = length data"
  then have "readPropertyValue L (drop (offset + 2) data) (col_type (columns ! i))
      = Inr (VNil, 0)"
    by (simp add: readPropertyValue_def)
  from decode_iter_step [OF assms this, of props]
  have "decode_iter L data columns offset props
      = Continue (offset + 2) (props(col_name (columns ! i) \<mapsto> VNil))"
    using a by simp
  moreover have "offset < length data" using a by simp
  ultimately show "decode_loop L data columns offset props
      = Inr (props(col_name (columns ! i) \<mapsto> VNil))"
    using a decode_loop_finished [of data "offset + 2" L columns]
    by (simp add: decode_loop.simps [of L data columns offset props])
next
  assume a: "col_type (columns ! i) \<noteq> ColumnTypeBool \<and>
      (\<exists>v. readPropertyValue L (drop (offset + 2) data) (col_type (columns ! i))
           = Inr (v, 0))"
  then obtain v where
    "readPropertyValue L (drop (offset + 2) data) (col_type (columns ! i)) = Inr (v, 0)"
    by blast
  from decode_iter_step [OF assms this, of props]
  have "decode_iter L data columns offset props = Break props"
    using a by simp
  moreover have "offset < length data" using assms(1) by simp
  ultimately show "decode_loop L data columns offset props = Inr props"
    by (simp add: decode_loop.simps [of L data columns offset props])
qed

theorem decode_zero_byte_read_witness:
  "decodeProperties example_extern [0, 0]
     (Some [\<lparr>col_name = ''b'', col_title = ''b'', col_type = ColumnTypeBool,
             col_nullable = True\<rparr>])
     = Inr [''b'' \<mapsto> VNil] \<and>
   decodeProperties example_extern [0, 0, 7]
     (Some [\<lparr>col_name = ''i'', col_title = ''i'', col_type = ColumnTypeInt,
             col_nullable = True\<rparr>])
     = Inr Map.empty"
  using decode_zero_byte_read [of 0 "[0, 0]" 0
      "[\<lparr>col_name = ''b'', col_title = ''b'', col_type = ColumnTypeBool, col_nullable = True\<rparr>]"
      example_extern Map.empty]
    decode_zero_byte_read [of 0 "[0, 0, 7]" 0
      "[\<lparr>col_name = ''i'', col_title = ''i'', col_type = ColumnTypeInt, col_nullable = True\<rparr>]"
      example_extern Map.empty]
  by (simp add: decodeProperties_loop Uint16_def readPropertyValue_def)

section \<open>Encoding against a schema, and decoding a prefix\<close>

text \<open>The column handed to \<^verbatim>\<open>writePropertyValue\<close> has no influence on the bytes.\<close>

lemma writePropertyValue_column:
  "writePropertyValue L value col = writePropertyValue L value col'"
  by (simp add: writePropertyValue_def)

text \<open>
  Claim C1 says that the value bytes follow the column's declared type. In the
  specification's scenario A the column \<open>v\<close> is inferred as Double from the values
  \<^verbatim>\<open>int\<close> 10 and \<^verbatim>\<open>float64\<close> 3.5. Encoding the first record against that schema writes
  the 10 with the four bytes of an Int, not the eight bytes of a Double, and
  \<^verbatim>\<open>decodeProperties\<close>, which reads by the declared type, finds too few bytes for a
  Double and returns the record without \<open>v\<close>.
\<close>

theorem encode_ignores_column_type:
  "inferColumns L
     [[(''n'', VString [97]), (''v'', VInt 10)],
      [(''n'', VString [98]), (''v'', VFloat64 0x400C000000000000)]]
     = [\<lparr>col_name = ''n'', col_title = ''n'', col_type = ColumnTypeString, col_nullable = True\<rparr>,
        \<lparr>col_name = ''v'', col_title = ''v'', col_type = ColumnTypeDouble, col_nullable = True\<rparr>] \<and>
   encodeProperties L [(''n'', VString [97]), (''v'', VInt 10)]
     [\<lparr>col_name = ''n'', col_title = ''n'', col_type = ColumnTypeString, col_nullable = True\<rparr>,
      \<lparr>col_name = ''v'', col_title = ''v'', col_type = ColumnTypeDouble, col_nullable = True\<rparr>]
     [''n'' \<mapsto> 0, ''v'' \<mapsto> 1]
     = Inr [0, 0, 97, 0, 1, 0, 10, 0, 0, 0] \<and>
   decodeProperties L [0, 0, 97, 0, 1, 0, 10, 0, 0, 0]
     (Some [\<lparr>col_name = ''n'', col_title = ''n'', col_type = ColumnTypeString,
             col_nullable = True\<rparr>,
            \<lparr>col_name = ''v'', col_title = ''v'', col_type = ColumnTypeDouble,
             col_nullable = True\<rparr>])
     = Inr [''n'' \<mapsto> VString [97]]"
proof (intro conjI)
  show "inferColumns L
     [[(''n'', VString [97]), (''v'', VInt 10)],
      [(''n'', VString [98]), (''v'', VFloat64 0x400C000000000000)]]
     = [\<lparr>col_name = ''n'', col_title = ''n'', col_type = ColumnTypeString, col_nullable = True\<rparr>,
        \<lparr>col_name = ''v'', col_title = ''v'', col_type = ColumnTypeDouble, col_nullable = True\<rparr>]"
    by (simp add: inferColumns_def infer_scan_def infer_entry_def inferColumnType_def
        lookup_type_def promoteColumnType_def Let_def)
  show "encodeProperties L [(''n'', VString [97]), (''v'', VInt 10)]
     [\<lparr>col_name = ''n'', col_title = ''n'', col_type = ColumnTypeString, col_nullable = True\<rparr>,
      \<lparr>col_name = ''v'', col_title = ''v'', col_type = ColumnTypeDouble, col_nullable = True\<rparr>]
     [''n'' \<mapsto> 0, ''v'' \<mapsto> 1]
     = Inr [0, 0, 97, 0, 1, 0, 10, 0, 0, 0]"
    by (simp add: encodeProperties_def encode_entry_def writePropertyValue_def
        inferColumnType_def toInt64_def toString_def PutUint16_def PutUint32_def)
  show "decodeProperties L [0, 0, 97, 0, 1, 0, 10, 0, 0, 0]
     (Some [\<lparr>col_name = ''n'', col_title = ''n'', col_type = ColumnTypeString,
             col_nullable = True\<rparr>,
            \<lparr>col_name = ''v'', col_title = ''v'', col_type = ColumnTypeDouble,
             col_nullable = True\<rparr>])
     = Inr [''n'' \<mapsto> VString [97]]"
    by (simp add: decodeProperties_loop decode_loop.simps decode_iter_def
        readPropertyValue_def Uint16_def)
qed

text \<open>
  The record that \<^verbatim>\<open>decodeProperties\<close> returns is the record of the insertions of
  its loop.
\<close>

declare decode_entries.simps [simp del]

lemma decode_iter_pass:
  "decode_iter L data columns offset props =
     (case decode_pass L data columns offset of
        Stop \<Rightarrow> Break props
      | Abort err \<Rightarrow> Panic err
      | Insert offset' colName value \<Rightarrow> Continue offset' (props(colName \<mapsto> value)))"
  by (simp add: decode_iter_def decode_pass_def Let_def split: sum.splits prod.splits)

lemma decode_loop_entries:
  "decode_loop L data columns offset props =
     (case decode_entries L data columns offset of
        Inl err \<Rightarrow> Inl err
      | Inr es \<Rightarrow> Inr (fold (\<lambda>e props. props(fst e \<mapsto> snd e)) es props))"
proof (induction L data columns offset props rule: decode_loop.induct)
  case (1 L data columns offset props)
  show ?case
  proof (cases "offset < length data")
    case False
    then show ?thesis
      by (simp add: decode_loop.simps [of L data columns offset props]
          decode_entries.simps [of L data columns offset])
  next
    case True
    show ?thesis
    proof (cases "decode_pass L data columns offset")
      case Stop
      then show ?thesis
        using True
        by (simp add: decode_loop.simps [of L data columns offset props]
            decode_entries.simps [of L data columns offset] decode_iter_pass)
    next
      case (Abort err)
      then show ?thesis
        using True
        by (simp add: decode_loop.simps [of L data columns offset props]
            decode_entries.simps [of L data columns offset] decode_iter_pass)
    next
      case (Insert offset' colName val)
      then have it: "decode_iter L data columns offset props
          = Continue offset' (props(colName \<mapsto> val))"
        by (simp add: decode_iter_pass)
      have ih: "decode_loop L data columns offset' (props(colName \<mapsto> val)) =
          (case decode_entries L data columns offset' of
             Inl err \<Rightarrow> Inl err
           | Inr es \<Rightarrow> Inr (fold (\<lambda>e props. props(fst e \<mapsto> snd e)) es
                            (props(colName \<mapsto> val))))"
        by (rule "1.IH" [OF True it])
      have lhs: "decode_loop L data columns offset props
          = decode_loop L data columns offset' (props(colName \<mapsto> val))"
        using True it by (simp add: decode_loop.simps [of L data columns offset props])
      have rhs: "decode_entries L data columns offset =
          (case decode_entries L data columns offset' of
             Inl err \<Rightarrow> Inl err
           | Inr es \<Rightarrow> Inr ((colName, val) # es))"
        using True Insert by (simp add: decode_entries.simps [of L data columns offset])
      show ?thesis
        unfolding lhs rhs ih
        by (cases "decode_entries L data columns offset'") simp_all
    qed
  qed
qed

lemma decodeProperties_entries:
  "decodeProperties L data (Some columns) =
     (case decode_entries L data columns 0 of
        Inl err \<Rightarrow> Inl err
      | Inr es \<Rightarrow> Inr (record_of es))"
  by (cases "decode_entries L data columns 0")
     (simp_all add: decodeProperties_loop decode_loop_entries record_of_def)

lemma decode_pass_step:
  assumes "offset + 2 \<le> length data" "i = unat (Uint16 (take 2 (drop offset data)))"
    "i < length columns"
    "readPropertyValue L (drop (offset + 2) data) (col_type (columns ! i)) = Inr (v, r)"
  shows "decode_pass L data columns offset =
     (if r = 0 \<and> col_type (columns ! i) \<noteq> ColumnTypeBool then Stop
      else Insert (offset + 2 + r) (col_name (columns ! i)) v)"
  using assms by (simp add: decode_pass_def Let_def)

lemma decode_pass_prefix:
  assumes nb: "\<forall>c\<in>set cols. col_type c \<noteq> ColumnTypeBinary"
  shows "decode_pass L (take n data) cols off = Stop
       \<or> (\<exists>off' name v.
            decode_pass L (take n data) cols off = Insert off' name v \<and>
            decode_pass L data cols off = Insert off' name v)
       \<or> (\<exists>off' name v' off2 v.
            decode_pass L (take n data) cols off = Insert off' name v' \<and>
            length (take n data) \<le> off' \<and>
            decode_pass L data cols off = Insert off2 name v)"
proof (cases "off + 2 > length (take n data)")
  case True
  then show ?thesis by (simp add: decode_pass_def)
next
  case False
  then have len: "off + 2 \<le> length (take n data)" "off + 2 \<le> length data" "off + 2 \<le> n"
    by auto
  define i where "i = unat (Uint16 (take 2 (drop off data)))"
  have idx: "take 2 (drop off (take n data)) = take 2 (drop off data)"
    using len by (simp add: drop_take min_def)
  show ?thesis
  proof (cases "length cols \<le> i")
    case True
    then show ?thesis using len idx by (simp add: decode_pass_def i_def)
  next
    case inrange: False
    define ct where "ct = col_type (cols ! i)"
    define name where "name = col_name (cols ! i)"
    define d where "d = drop (off + 2) data"
    define d' where "d' = drop (off + 2) (take n data)"
    have d': "d' = take (n - (off + 2)) d"
      by (simp add: d'_def d_def drop_take)
    have ctnb: "ct \<noteq> ColumnTypeBinary"
      using nb inrange nth_mem [of i cols] unfolding ct_def by auto
    obtain v' r' where r': "readPropertyValue L d' ct = Inr (v', r')"
      using read_no_panic [OF ctnb] by blast
    obtain v r where r: "readPropertyValue L d ct = Inr (v, r)"
      using read_no_panic [OF ctnb] by blast
    have lenP: "length (take n data) = off + 2 + length d'"
      using len by (simp add: d'_def)
    have it1: "decode_pass L (take n data) cols off =
        (if r' = 0 \<and> ct \<noteq> ColumnTypeBool then Stop
         else Insert (off + 2 + r') name v')"
      using decode_pass_step [of off "take n data" i cols L v' r'] len(1) idx inrange r'
      unfolding i_def ct_def name_def d'_def by simp
    have it2: "decode_pass L data cols off =
        (if r = 0 \<and> ct \<noteq> ColumnTypeBool then Stop
         else Insert (off + 2 + r) name v)"
      using decode_pass_step [of off data i cols L v r] len(2) inrange r
      unfolding i_def ct_def name_def d_def by simp
    have "truncated_read L d' d ct"
      unfolding d' by (rule read_prefix [OF ctnb])
    then consider (same) "v' = v" "r' = r"
      | (stop) "r' = 0" "ct \<noteq> ColumnTypeBool"
      | (cut) "length d' \<le> r'" "r \<noteq> 0 \<or> ct = ColumnTypeBool"
      unfolding truncated_read_def using r r' by auto
    then show ?thesis
    proof cases
      case same
      then show ?thesis using it1 it2 by auto
    next
      case stop
      then show ?thesis using it1 by simp
    next
      case cut
      show ?thesis
      proof (cases "r' = 0 \<and> ct \<noteq> ColumnTypeBool")
        case True
        then show ?thesis using it1 by simp
      next
        case False
        then have "decode_pass L (take n data) cols off = Insert (off + 2 + r') name v'"
          using it1 by simp
        moreover have "length (take n data) \<le> off + 2 + r'"
          using cut lenP by simp
        moreover have "decode_pass L data cols off = Insert (off + 2 + r) name v"
          using it2 cut by auto
        ultimately show ?thesis by blast
      qed
    qed
  qed
qed


lemma decode_entries_finished:
  "length data \<le> off \<Longrightarrow> decode_entries L data cols off = Inr []"
  by (simp add: decode_entries.simps [of L data cols off])

lemma decode_entries_no_panic:
  assumes "\<forall>c\<in>set cols. col_type c \<noteq> ColumnTypeBinary"
  shows "\<exists>es. decode_entries L data cols off = Inr es"
proof -
  obtain r where "decode_loop L data cols off Map.empty = Inr r"
    using decode_loop_no_panic [OF assms] by blast
  then show ?thesis
    by (cases "decode_entries L data cols off") (simp_all add: decode_loop_entries)
qed

lemma decode_entries_prefix:
  assumes "\<forall>c\<in>set cols. col_type c \<noteq> ColumnTypeBinary"
    and "decode_entries L (take n data) cols off = Inr es1"
    and "decode_entries L data cols off = Inr es2"
  shows "\<exists>k\<le>length es2. es1 = take k es2 \<or>
           (k < length es2 \<and> (\<exists>v'. es1 = take k es2 @ [(fst (es2 ! k), v')]))"
proof -
  define P where "P = take n data"
  have "\<exists>k\<le>length es2. es1 = take k es2 \<or>
           (k < length es2 \<and> (\<exists>v'. es1 = take k es2 @ [(fst (es2 ! k), v')]))"
    if "decode_entries L P cols off = Inr es1" "P = take n data"
      "\<forall>c\<in>set cols. col_type c \<noteq> ColumnTypeBinary"
      "decode_entries L data cols off = Inr es2"
    using that
  proof (induction L P cols off arbitrary: es1 es2 rule: decode_entries.induct)
    case (1 L P cols off)
    note P = \<open>P = take n data\<close> and nb = \<open>\<forall>c\<in>set cols. col_type c \<noteq> ColumnTypeBinary\<close>
    show ?case
    proof (cases "off < length P")
      case False
      then have "es1 = []"
        using "1.prems"(1) by (simp add: decode_entries.simps [of L P cols off])
      then have "es1 = take 0 es2" by simp
      then show ?thesis by blast
    next
      case True
      then have offd: "off < length data" using P by simp
      from decode_pass_prefix [OF nb, of L n data off]
      consider (stop) "decode_pass L P cols off = Stop"
        | (same) off' name v where
            "decode_pass L P cols off = Insert off' name v"
            "decode_pass L data cols off = Insert off' name v"
        | (cut) off' name v' off2 v where
            "decode_pass L P cols off = Insert off' name v'"
            "length P \<le> off'"
            "decode_pass L data cols off = Insert off2 name v"
        unfolding P by blast
      then show ?thesis
      proof cases
        case stop
        then have "es1 = []"
          using "1.prems"(1) True by (simp add: decode_entries.simps [of L P cols off])
        then have "es1 = take 0 es2" by simp
        then show ?thesis by blast
      next
        case same
        obtain es1' where a: "decode_entries L P cols off' = Inr es1'"
          and es1: "es1 = (name, v) # es1'"
          using "1.prems"(1) True same(1)
          by (auto simp: decode_entries.simps [of L P cols off] split: sum.splits)
        obtain es2' where b: "decode_entries L data cols off' = Inr es2'"
          and es2: "es2 = (name, v) # es2'"
          using "1.prems"(4) offd same(2)
          by (auto simp: decode_entries.simps [of L data cols off] split: sum.splits)
        from "1.IH" [OF True same(1) a P nb b]
        obtain k where k: "k \<le> length es2'"
          "es1' = take k es2' \<or>
             (k < length es2' \<and> (\<exists>v'. es1' = take k es2' @ [(fst (es2' ! k), v')]))"
          by blast
        have "Suc k \<le> length es2" using k(1) es2 by simp
        moreover have "es1 = take (Suc k) es2 \<or>
             (Suc k < length es2 \<and>
              (\<exists>v'. es1 = take (Suc k) es2 @ [(fst (es2 ! Suc k), v')]))"
          using k(2) es1 es2 by auto
        ultimately show ?thesis by blast
      next
        case cut
        have "decode_entries L P cols off' = Inr []"
          using cut(2) by (rule decode_entries_finished)
        then have es1: "es1 = [(name, v')]"
          using "1.prems"(1) True cut(1)
          by (simp add: decode_entries.simps [of L P cols off])
        obtain es2' where es2: "es2 = (name, v) # es2'"
          using "1.prems"(4) offd cut(3)
          by (auto simp: decode_entries.simps [of L data cols off] split: sum.splits)
        have "0 < length es2 \<and> es1 = take 0 es2 @ [(fst (es2 ! 0), v')]"
          using es1 es2 by simp
        then show ?thesis by blast
      qed
    qed
  qed
  then show ?thesis using assms P_def by blast
qed


lemma record_of_snoc: "record_of (es @ [e]) = (record_of es)(fst e \<mapsto> snd e)"
  by (simp add: record_of_def)

lemma dom_record_of: "dom (record_of es) = fst ` set es"
proof (induction es rule: rev_induct)
  case Nil
  show ?case by (simp add: record_of_def)
next
  case (snoc e es)
  have "dom (record_of (es @ [e])) = insert (fst e) (dom (record_of es))"
    by (simp add: record_of_snoc)
  then show ?case
    unfolding snoc by simp
qed

lemma record_of_take_le:
  "distinct (map fst es) \<Longrightarrow> record_of (take k es) \<subseteq>\<^sub>m record_of es"
proof (induction es rule: rev_induct)
  case Nil
  then show ?case by simp
next
  case (snoc e es)
  show ?case
  proof (cases "k \<le> length es")
    case True
    have "fst e \<notin> dom (record_of es)"
      using snoc.prems by (simp add: dom_record_of)
    then have up: "record_of es \<subseteq>\<^sub>m (record_of es)(fst e \<mapsto> snd e)"
      by (auto simp: map_le_def)
    have "record_of (take k es) \<subseteq>\<^sub>m record_of es"
      using snoc by simp
    moreover note up
    ultimately have "record_of (take k es) \<subseteq>\<^sub>m (record_of es)(fst e \<mapsto> snd e)"
      by (rule map_le_trans)
    moreover have "take k (es @ [e]) = take k es"
      using True by simp
    ultimately show ?thesis
      by (simp only: record_of_snoc)
  next
    case False
    then show ?thesis by simp
  qed
qed

text \<open>
  Claim C2 as stated fails: the record \<open>{n: "ab"}\<close> encodes to five bytes, and the
  prefix of length 3 decodes to \<open>{n: "a"}\<close>, which is not a subset of the full decode
  \<open>{n: "ab"}\<close>: a string without its terminator is read to the end of the buffer.
\<close>

theorem decode_prefix_not_subset:
  "encodeProperties example_extern [(''n'', VString [97, 98])]
     [\<lparr>col_name = ''n'', col_title = ''n'', col_type = ColumnTypeString, col_nullable = True\<rparr>]
     [''n'' \<mapsto> 0] = Inr [0, 0, 97, 98, 0] \<and>
   decodeProperties example_extern (take 3 [0, 0, 97, 98, 0])
     (Some [\<lparr>col_name = ''n'', col_title = ''n'', col_type = ColumnTypeString,
             col_nullable = True\<rparr>]) = Inr [''n'' \<mapsto> VString [97]] \<and>
   decodeProperties example_extern [0, 0, 97, 98, 0]
     (Some [\<lparr>col_name = ''n'', col_title = ''n'', col_type = ColumnTypeString,
             col_nullable = True\<rparr>]) = Inr [''n'' \<mapsto> VString [97, 98]] \<and>
   \<not> [''n'' \<mapsto> VString [97]] \<subseteq>\<^sub>m [''n'' \<mapsto> VString [97, 98 :: byte]]"
  by (simp add: encodeProperties_def encode_entry_def writePropertyValue_def
      inferColumnType_def toString_def PutUint16_def decodeProperties_loop
      decode_loop.simps decode_iter_def readPropertyValue_def Uint16_def map_le_def)

text \<open>
  Claim C2, amended. For every record encoded against a schema without a Binary
  column, and every prefix of the encoded bytes, of any length from 0 to the full
  length, decoding the prefix does not fail, and the insertions it makes are those that
  decoding the full byte sequence makes, same names, same values, same order, up to the
  entry the cut falls in: it returns the record built by the first \<open>k\<close> insertions of
  the full decode, or that record with the name of the full decode's next insertion
  bound to the value read from what the cut has left of it. So the names of the prefix
  decode are among the names of the full decode, and when the full decode inserts no
  name twice, every entry of the prefix decode other than the entry the cut falls in is
  an entry of the full decode.
\<close>

theorem decode_prefix_safe:
  assumes "\<forall>c\<in>set columns. col_type c \<noteq> ColumnTypeBinary"
    and "encodeProperties L props columns columnMap = Inr bs"
  shows "\<exists>es k m1.
      decode_entries L bs columns 0 = Inr es \<and>
      decodeProperties L bs (Some columns) = Inr (record_of es) \<and>
      decodeProperties L (take n bs) (Some columns) = Inr m1 \<and>
      k \<le> length es \<and>
      (m1 = record_of (take k es) \<or>
       (k < length es \<and> (\<exists>v'. m1 = (record_of (take k es))(fst (es ! k) \<mapsto> v')))) \<and>
      dom m1 \<subseteq> dom (record_of es) \<and>
      (distinct (map fst es) \<longrightarrow> record_of (take k es) \<subseteq>\<^sub>m record_of es)"
proof -
  obtain es where es: "decode_entries L bs columns 0 = Inr es"
    using decode_entries_no_panic [OF assms(1)] by blast
  obtain es1 where es1: "decode_entries L (take n bs) columns 0 = Inr es1"
    using decode_entries_no_panic [OF assms(1)] by blast
  from decode_entries_prefix [OF assms(1) es1 es]
  obtain k where k: "k \<le> length es"
    "es1 = take k es \<or> (k < length es \<and> (\<exists>v'. es1 = take k es @ [(fst (es ! k), v')]))"
    by blast
  have full: "decodeProperties L bs (Some columns) = Inr (record_of es)"
    using es by (simp add: decodeProperties_entries)
  have pre: "decodeProperties L (take n bs) (Some columns) = Inr (record_of es1)"
    using es1 by (simp add: decodeProperties_entries)
  have shape: "record_of es1 = record_of (take k es) \<or>
       (k < length es \<and> (\<exists>v'. record_of es1 = (record_of (take k es))(fst (es ! k) \<mapsto> v')))"
    using k(2) by (auto simp: record_of_snoc)
  have "dom (record_of es1) \<subseteq> dom (record_of es)"
  proof -
    have sub: "set (take k es) \<subseteq> set es"
      by (rule set_take_subset)
    have nth: "k < length es \<Longrightarrow> es ! k \<in> set es"
      by simp
    have "set es1 \<subseteq> set es \<or> (\<exists>v'. k < length es \<and>
        set es1 = insert (fst (es ! k), v') (set (take k es)))"
      using k(2) sub by auto
    then have "fst ` set es1 \<subseteq> fst ` set es"
    proof
      assume "set es1 \<subseteq> set es"
      then show ?thesis by (rule image_mono)
    next
      assume "\<exists>v'. k < length es \<and> set es1 = insert (fst (es ! k), v') (set (take k es))"
      then obtain v' where kl: "k < length es"
        and eq: "set es1 = insert (fst (es ! k), v') (set (take k es))"
        by blast
      have "fst ` set es1 = insert (fst (es ! k)) (fst ` set (take k es))"
        unfolding eq by simp
      moreover have "fst (es ! k) \<in> fst ` set es"
        using nth [OF kl] by (rule imageI)
      moreover have "fst ` set (take k es) \<subseteq> fst ` set es"
        using sub by (rule image_mono)
      ultimately show ?thesis by simp
    qed
    then show ?thesis
      by (simp only: dom_record_of)
  qed
  moreover have "distinct (map fst es) \<longrightarrow> record_of (take k es) \<subseteq>\<^sub>m record_of es"
    by (simp add: record_of_take_le)
  ultimately show ?thesis
    using es full pre k(1) shape by blast
qed

theorem decode_prefix_safe_witness:
  "encodeProperties example_extern [(''n'', VString [97, 98]), (''m'', VString [99, 100])]
     [\<lparr>col_name = ''n'', col_title = ''n'', col_type = ColumnTypeString, col_nullable = True\<rparr>,
      \<lparr>col_name = ''m'', col_title = ''m'', col_type = ColumnTypeString, col_nullable = True\<rparr>]
     [''n'' \<mapsto> 0, ''m'' \<mapsto> 1]
     = Inr [0, 0, 97, 98, 0, 1, 0, 99, 100, 0] \<and>
   decode_entries example_extern [0, 0, 97, 98, 0, 1, 0, 99, 100, 0]
     [\<lparr>col_name = ''n'', col_title = ''n'', col_type = ColumnTypeString, col_nullable = True\<rparr>,
      \<lparr>col_name = ''m'', col_title = ''m'', col_type = ColumnTypeString, col_nullable = True\<rparr>]
     0 = Inr [(''n'', VString [97, 98]), (''m'', VString [99, 100])] \<and>
   decodeProperties example_extern (take 8 [0, 0, 97, 98, 0, 1, 0, 99, 100, 0])
     (Some [\<lparr>col_name = ''n'', col_title = ''n'', col_type = ColumnTypeString,
             col_nullable = True\<rparr>,
            \<lparr>col_name = ''m'', col_title = ''m'', col_type = ColumnTypeString,
             col_nullable = True\<rparr>])
     = Inr ((record_of (take 1 [(''n'', VString [97, 98]), (''m'', VString [99, 100])]))
              (''m'' \<mapsto> VString [99]))"
proof -
  have enc: "encodeProperties example_extern
     [(''n'', VString [97, 98]), (''m'', VString [99, 100])]
     [\<lparr>col_name = ''n'', col_title = ''n'', col_type = ColumnTypeString, col_nullable = True\<rparr>,
      \<lparr>col_name = ''m'', col_title = ''m'', col_type = ColumnTypeString, col_nullable = True\<rparr>]
     [''n'' \<mapsto> 0, ''m'' \<mapsto> 1]
     = Inr [0, 0, 97, 98, 0, 1, 0, 99, 100, 0]"
    by (simp add: encodeProperties_def encode_entry_def writePropertyValue_def
        inferColumnType_def toString_def PutUint16_def)
  have nb: "\<forall>c\<in>set [\<lparr>col_name = ''n'', col_title = ''n'', col_type = ColumnTypeString,
       col_nullable = True\<rparr>, \<lparr>col_name = ''m'', col_title = ''m'',
       col_type = ColumnTypeString, col_nullable = True\<rparr>].
       col_type c \<noteq> ColumnTypeBinary"
    by simp
  have ents: "decode_entries example_extern [0, 0, 97, 98, 0, 1, 0, 99, 100, 0]
     [\<lparr>col_name = ''n'', col_title = ''n'', col_type = ColumnTypeString, col_nullable = True\<rparr>,
      \<lparr>col_name = ''m'', col_title = ''m'', col_type = ColumnTypeString, col_nullable = True\<rparr>]
     0 = Inr [(''n'', VString [97, 98]), (''m'', VString [99, 100])]"
    by (simp add: decode_entries.simps decode_pass_def readPropertyValue_def Uint16_def)
  have pre: "decodeProperties example_extern (take 8 [0, 0, 97, 98, 0, 1, 0, 99, 100, 0])
     (Some [\<lparr>col_name = ''n'', col_title = ''n'', col_type = ColumnTypeString,
             col_nullable = True\<rparr>,
            \<lparr>col_name = ''m'', col_title = ''m'', col_type = ColumnTypeString,
             col_nullable = True\<rparr>])
     = Inr ((record_of (take 1 [(''n'', VString [97, 98]), (''m'', VString [99, 100])]))
              (''m'' \<mapsto> VString [99]))"
    by (simp add: decodeProperties_loop decode_loop.simps decode_iter_def
        readPropertyValue_def Uint16_def record_of_def)
  from decode_prefix_safe [OF nb enc, of 8] enc ents pre show ?thesis
    by blast
qed

section \<open>Properties of schema inference\<close>

lemma promote_all_snoc:
  "promote_all (ts @ [t]) =
     (case promote_all ts of None \<Rightarrow> Some t | Some a \<Rightarrow> Some (promoteColumnType a t))"
  by (cases ts) simp_all

lemma fold_fold_concat: "fold (\<lambda>f st. fold g f st) fs st = fold g (concat fs) st"
  by (induction fs arbitrary: st) simp_all

lemma scan_entries_snoc: "scan_entries L (es @ [e]) = infer_entry L e (scan_entries L es)"
  by (simp add: scan_entries_def)

lemma scan_entries_None:
  "(columnTypes (scan_entries L es) name = None) = (name \<notin> fst ` set es)"
proof (induction es rule: rev_induct)
  case Nil
  then show ?case by (simp add: scan_entries_def)
next
  case (snoc e es)
  then show ?case
    by (cases "columnTypes (scan_entries L es) (fst e)")
       (simp_all add: scan_entries_snoc infer_entry_def Let_def)
qed

lemma scan_entries_order:
  "columnOrder (scan_entries L es) = rev (remdups (rev (map fst es)))"
proof (induction es rule: rev_induct)
  case Nil
  then show ?case by (simp add: scan_entries_def)
next
  case (snoc e es)
  then show ?case
    by (simp add: scan_entries_snoc infer_entry_def Let_def scan_entries_None)
qed

lemma scan_entries_types:
  "columnTypes (scan_entries L es) name
     = promote_all (map (\<lambda>e. inferColumnType L (snd e)) (filter (\<lambda>e. fst e = name) es))"
proof (induction es rule: rev_induct)
  case Nil
  then show ?case by (simp add: scan_entries_def)
next
  case (snoc e es)
  then show ?case
    by (cases "columnTypes (scan_entries L es) (fst e)")
       (auto simp: scan_entries_snoc infer_entry_def Let_def promote_all_snoc
             split: option.splits)
qed

lemma infer_scan_entries: "infer_scan L features = scan_entries L (concat features)"
  by (simp add: infer_scan_def scan_entries_def fold_fold_concat)

lemma inferColumns_names:
  "map col_name (inferColumns L features) = rev (remdups (rev (map fst (concat features))))"
  by (cases "features = []")
     (simp_all add: inferColumns_def Let_def infer_scan_entries scan_entries_order comp_def)

lemma inferColumns_type:
  assumes "c \<in> set (inferColumns L features)"
  shows "promote_all (observed_types L features (col_name c)) = Some (col_type c)"
proof -
  have ne: "features \<noteq> []" using assms by (auto simp: inferColumns_def)
  from assms ne obtain name where name: "name \<in> set (columnOrder (infer_scan L features))"
    and c: "c = \<lparr>col_name = name, col_title = name,
                 col_type = lookup_type (columnTypes (infer_scan L features)) name,
                 col_nullable = True\<rparr>"
    by (auto simp: inferColumns_def Let_def)
  have "columnTypes (infer_scan L features) name \<noteq> None"
    using name by (simp add: infer_scan_entries scan_entries_order scan_entries_None)
  then obtain t where t: "columnTypes (infer_scan L features) name = Some t" by blast
  then have "promote_all (observed_types L features name) = Some t"
    by (simp add: observed_types_def infer_scan_entries scan_entries_types)
  then show ?thesis using c t by (simp add: lookup_type_def)
qed

lemma promote_all_String:
  "ts \<noteq> [] \<Longrightarrow> \<forall>t\<in>set ts. t = ColumnTypeString \<Longrightarrow> promote_all ts = Some ColumnTypeString"
proof (induction ts rule: rev_induct)
  case Nil
  then show ?case by simp
next
  case (snoc t ts)
  then show ?case
    by (cases "ts = []") (auto simp: promote_all_snoc promoteColumnType_def)
qed

lemma inferColumnType_VNil: "inferColumnType L VNil = ColumnTypeString"
  by (simp add: inferColumnType_def)

text \<open>
  Claim C4 says that two runs of \<^verbatim>\<open>inferColumns\<close> on the same features give the same
  ordered column list. The properties of a feature are a Go map, and the order in which
  \<^verbatim>\<open>range\<close> visits a map is not fixed: the two visiting orders below are orders of the
  same map, and the column lists they produce differ in order.
\<close>

theorem inferColumns_order_varies:
  "map_of [(''a'', VInt 1), (''b'', VString [120])]
     = map_of [(''b'', VString [120]), (''a'', VInt 1)] \<and>
   inferColumns L [[(''a'', VInt 1), (''b'', VString [120])]]
     = [\<lparr>col_name = ''a'', col_title = ''a'', col_type = ColumnTypeInt, col_nullable = True\<rparr>,
        \<lparr>col_name = ''b'', col_title = ''b'', col_type = ColumnTypeString, col_nullable = True\<rparr>] \<and>
   inferColumns L [[(''b'', VString [120]), (''a'', VInt 1)]]
     = [\<lparr>col_name = ''b'', col_title = ''b'', col_type = ColumnTypeString, col_nullable = True\<rparr>,
        \<lparr>col_name = ''a'', col_title = ''a'', col_type = ColumnTypeInt, col_nullable = True\<rparr>] \<and>
   inferColumns L [[(''a'', VInt 1), (''b'', VString [120])]]
     \<noteq> inferColumns L [[(''b'', VString [120]), (''a'', VInt 1)]]"
proof -
  have same_map: "map_of [(''a'', VInt 1), (''b'', VString [120])]
     = map_of [(''b'', VString [120]), (''a'', VInt 1)]"
    by auto
  have ab: "inferColumns L [[(''a'', VInt 1), (''b'', VString [120])]]
     = [\<lparr>col_name = ''a'', col_title = ''a'', col_type = ColumnTypeInt, col_nullable = True\<rparr>,
        \<lparr>col_name = ''b'', col_title = ''b'', col_type = ColumnTypeString, col_nullable = True\<rparr>]"
    by (simp add: inferColumns_def infer_scan_def infer_entry_def inferColumnType_def
        lookup_type_def Let_def)
  have ba: "inferColumns L [[(''b'', VString [120]), (''a'', VInt 1)]]
     = [\<lparr>col_name = ''b'', col_title = ''b'', col_type = ColumnTypeString, col_nullable = True\<rparr>,
        \<lparr>col_name = ''a'', col_title = ''a'', col_type = ColumnTypeInt, col_nullable = True\<rparr>]"
    by (simp add: inferColumns_def infer_scan_def infer_entry_def inferColumnType_def
        lookup_type_def Let_def)
  show ?thesis
    using same_map ab ba by simp
qed

text \<open>
  Claim C5 as stated fails: a column observed as the \<^verbatim>\<open>int\<close> 10 and then as \<^verbatim>\<open>nil\<close> is
  inferred as String, while the fold of promotion over its non-null values gives Int.
\<close>

theorem null_takes_part_in_promotion:
  "map col_type (inferColumns example_extern [[(''v'', VInt 10)], [(''v'', VNil)]])
     = [ColumnTypeString] \<and>
   promote_all (nonnull_types example_extern [[(''v'', VInt 10)], [(''v'', VNil)]] ''v'')
     = Some ColumnTypeInt"
  by (simp add: inferColumns_def infer_scan_def infer_entry_def inferColumnType_def
      lookup_type_def promoteColumnType_def nonnull_types_def Let_def)

text \<open>
  Claim C5, amended. During schema inference a null value takes part in type promotion
  as a String: each column's inferred type equals the left-to-right fold of promotion
  over the inferred types of all values observed under the column's name, a null value
  counting as String; a column whose every observed value is null has type String.
\<close>

theorem inferred_type_is_fold:
  assumes "c \<in> set (inferColumns L features)"
  shows "promote_all (observed_types L features (col_name c)) = Some (col_type c) \<and>
         ((\<forall>e\<in>set (concat features). fst e = col_name c \<longrightarrow> snd e = VNil) \<longrightarrow>
            col_type c = ColumnTypeString)"
proof
  show fold: "promote_all (observed_types L features (col_name c)) = Some (col_type c)"
    using assms by (rule inferColumns_type)
  show "(\<forall>e\<in>set (concat features). fst e = col_name c \<longrightarrow> snd e = VNil) \<longrightarrow>
            col_type c = ColumnTypeString"
  proof
    assume nil: "\<forall>e\<in>set (concat features). fst e = col_name c \<longrightarrow> snd e = VNil"
    have ne: "observed_types L features (col_name c) \<noteq> []"
      using fold by auto
    have "\<forall>t\<in>set (observed_types L features (col_name c)). t = ColumnTypeString"
    proof
      fix t
      assume "t \<in> set (observed_types L features (col_name c))"
      then obtain e where e: "e \<in> set (concat features)" "fst e = col_name c"
        and t: "t = inferColumnType L (snd e)"
        unfolding observed_types_def by auto
      from nil e have "snd e = VNil" by blast
      then show "t = ColumnTypeString" using t by (simp add: inferColumnType_VNil)
    qed
    from promote_all_String [OF ne this] fold show "col_type c = ColumnTypeString"
      by simp
  qed
qed

theorem inferred_type_is_fold_witness:
  "inferColumns example_extern [[(''v'', VInt 10)], [(''v'', VNil)]]
     = [\<lparr>col_name = ''v'', col_title = ''v'', col_type = ColumnTypeString,
          col_nullable = True\<rparr>] \<and>
   promote_all (observed_types example_extern [[(''v'', VInt 10)], [(''v'', VNil)]] ''v'')
     = Some ColumnTypeString \<and>
   inferColumns example_extern [[(''w'', VNil)]]
     = [\<lparr>col_name = ''w'', col_title = ''w'', col_type = ColumnTypeString,
          col_nullable = True\<rparr>] \<and>
   promote_all (observed_types example_extern [[(''w'', VNil)]] ''w'') = Some ColumnTypeString"
proof -
  have 1: "inferColumns example_extern [[(''v'', VInt 10)], [(''v'', VNil)]]
     = [\<lparr>col_name = ''v'', col_title = ''v'', col_type = ColumnTypeString,
          col_nullable = True\<rparr>]"
    by (simp add: inferColumns_def infer_scan_def infer_entry_def inferColumnType_def
        lookup_type_def promoteColumnType_def Let_def)
  have 2: "inferColumns example_extern [[(''w'', VNil)]]
     = [\<lparr>col_name = ''w'', col_title = ''w'', col_type = ColumnTypeString,
          col_nullable = True\<rparr>]"
    by (simp add: inferColumns_def infer_scan_def infer_entry_def inferColumnType_def
        lookup_type_def Let_def)
  from inferred_type_is_fold [of "\<lparr>col_name = ''v'', col_title = ''v'',
        col_type = ColumnTypeString, col_nullable = True\<rparr>" example_extern
        "[[(''v'', VInt 10)], [(''v'', VNil)]]"]
    inferred_type_is_fold [of "\<lparr>col_name = ''w'', col_title = ''w'',
        col_type = ColumnTypeString, col_nullable = True\<rparr>" example_extern
        "[[(''w'', VNil)]]"]
  show ?thesis
    using 1 2 by simp
qed

section \<open>Properties of packing and unpacking\<close>

lemma flat_simps [simp]:
  "flat [] = []" "flat (p # ps) = fst p # snd p # flat ps"
  by (simp_all add: flat_def)

lemma flat_append: "flat (ps @ qs) = flat ps @ flat qs"
  by (simp add: flat_def)

lemma length_flat [simp]: "length (flat ps) = 2 * length ps"
  by (induction ps) simp_all

lemma append_points_flat: "append_points xy ps = xy @ flat ps"
  unfolding append_points_def
  by (induction ps arbitrary: xy) (simp_all add: flat_append)

lemma xy_ends_loop_eq:
  "xy_ends_loop ls xy ends c = (xy @ flat (concat ls), ends @ cumulative_ends ls c)"
  by (induction ls arbitrary: xy ends c) (simp_all add: append_points_flat flat_append Let_def)

lemma polygonToXYEnds_eq:
  "polygonToXYEnds poly = (flat (concat poly), cumulative_ends poly 0)"
  by (simp add: polygonToXYEnds_def xy_ends_loop_eq)

lemma multiLineStringToXYEnds_eq:
  "multiLineStringToXYEnds mls = (flat (concat mls), cumulative_ends mls 0)"
  by (simp add: multiLineStringToXYEnds_def xy_ends_loop_eq)

lemma length_cumulative_ends [simp]: "length (cumulative_ends ls c) = length ls"
  by (induction ls arbitrary: c) simp_all

lemma cumulative_ends_nth:
  "i < length ls \<Longrightarrow>
     cumulative_ends ls c ! i = c + word_of_nat (sum_list (map length (take (Suc i) ls)))"
proof (induction ls arbitrary: i c)
  case Nil
  then show ?case by simp
next
  case (Cons l ls)
  then show ?case by (cases i) (simp_all add: algebra_simps)
qed

lemma sum_list_take_le:
  "sum_list (map length (take k ls)) \<le> sum_list (map length (ls :: 'a list list))"
proof -
  have "sum_list (map length ls) = sum_list (map length (take k ls)) + sum_list (map length (drop k ls))"
    by (metis append_take_drop_id map_append sum_list_append)
  then show ?thesis by simp
qed

lemma points_from_xy_flat: "points_from_xy beyond (flat ps) = Inr ps"
  by (induction ps) simp_all

lemma flat_nth:
  "j < length ps \<Longrightarrow> (flat ps ! (j * 2), flat ps ! (j * 2 + 1)) = ps ! j"
proof (induction ps arbitrary: j)
  case Nil
  then show ?case by simp
next
  case (Cons p ps)
  then show ?case by (cases j) simp_all
qed

lemma points_between_flat:
  assumes "unat start = length pre" "unat end' = length pre + length l"
  shows "points_between (flat (pre @ l @ post)) start end' = l"
proof -
  let ?all = "pre @ l @ post"
  have in_range: "j * 2 + 1 < length (flat ?all)"
    if "j \<in> set [length pre..<length pre + length l]" for j
    using that by simp
  have "filter (\<lambda>j. j * 2 + 1 < length (flat ?all)) [length pre..<length pre + length l]
      = [length pre..<length pre + length l]"
    using in_range by (simp add: filter_id_conv del: length_flat)
  moreover have "map (\<lambda>j. (flat ?all ! (j * 2), flat ?all ! (j * 2 + 1)))
      [length pre..<length pre + length l] = map (\<lambda>j. ?all ! j) [length pre..<length pre + length l]"
  proof (rule map_cong)
    fix j
    assume "j \<in> set [length pre..<length pre + length l]"
    then have "j < length ?all" by simp
    then show "(flat ?all ! (j * 2), flat ?all ! (j * 2 + 1)) = ?all ! j"
      by (rule flat_nth)
  qed simp
  moreover have "map (\<lambda>j. ?all ! j) [length pre..<length pre + length l] = l"
  proof (rule nth_equalityI)
    show "length (map (\<lambda>j. ?all ! j) [length pre..<length pre + length l]) = length l"
      by simp
  next
    fix i
    assume "i < length (map (\<lambda>j. ?all ! j) [length pre..<length pre + length l])"
    then have i: "i < length l" by simp
    then show "map (\<lambda>j. ?all ! j) [length pre..<length pre + length l] ! i = l ! i"
      by (simp add: nth_append)
  qed
  ultimately show ?thesis
    using assms by (simp add: points_between_def del: length_flat)
qed

lemma lines_from_ends_roundtrip:
  assumes "unat c = length pre" "length pre + length (concat ls) < 2 ^ 32"
  shows "lines_from_ends limit (flat (pre @ concat ls)) (cumulative_ends ls c) c = Inr ls"
  using assms
proof (induction ls arbitrary: pre c)
  case Nil
  then show ?case by simp
next
  case (Cons l ls)
  let ?c = "c + word_of_nat (length l) :: 32 word"
  have c': "unat ?c = length pre + length l"
    using Cons.prems by (simp add: unat_word_ariths unat_of_nat)
  have first: "points_between (flat (pre @ l @ concat ls)) c ?c = l"
    by (rule points_between_flat [OF Cons.prems(1) c'])
  have rest: "lines_from_ends limit (flat ((pre @ l) @ concat ls)) (cumulative_ends ls ?c) ?c
      = Inr ls"
    by (rule Cons.IH) (use c' Cons.prems in simp_all)
  have "unat (?c - c) = length l"
    using Cons.prems(2) by (simp add: unat_of_nat)
  then have "\<not> max limit (length (flat (pre @ l @ concat ls)) div 2) < unat (?c - c)"
    by simp
  then show ?case using first rest by simp
qed

lemma flat_eq_Nil [simp]: "(flat ps = []) = (ps = [])"
  by (cases ps) simp_all

lemma short_flat: "(length (flat ps) < 2) = (ps = [])"
  by (cases ps) simp_all

lemma cumulative_ends_eq_Nil [simp]: "(cumulative_ends ls c = []) = (ls = [])"
  by (cases ls) simp_all

lemma points_round_trip:
  "multiPointFromXY E (Packed t (flat v) ends ps) = Inr v"
  "lineStringFromXY E (Packed t (flat v) ends ps) = Inr v"
  by (cases v; simp add: multiPointFromXY_def lineStringFromXY_def points_from_xy_flat)+

lemma lines_round_trip:
  assumes "concat ls \<noteq> []" "length (concat ls) < 2 ^ 32"
  shows "polygonFromXYEnds E (Packed t (flat (concat ls)) (cumulative_ends ls 0) ps) = Inr ls"
    and "multiLineStringFromXYEnds E (Packed t (flat (concat ls)) (cumulative_ends ls 0) ps)
           = Inr ls"
proof -
  have ne: "ls \<noteq> []" using assms(1) by auto
  have "lines_from_ends (alloc_points E) (flat ([] @ concat ls)) (cumulative_ends ls 0) 0
      = Inr ls"
    by (rule lines_from_ends_roundtrip) (use assms in simp_all)
  then have l: "lines_from_ends (alloc_points E) (flat (concat ls)) (cumulative_ends ls 0) 0
      = Inr ls"
    by simp
  have long: "\<not> length (flat (concat ls)) < 2"
    using assms(1) by (simp only: short_flat not_False_eq_True)
  have ends: "cumulative_ends ls 0 \<noteq> []" using ne by simp
  show "polygonFromXYEnds E (Packed t (flat (concat ls)) (cumulative_ends ls 0) ps) = Inr ls"
    unfolding polygonFromXYEnds_def packed.sel using long ends l by (simp only: if_False)
  show "multiLineStringFromXYEnds E (Packed t (flat (concat ls)) (cumulative_ends ls 0) ps)
           = Inr ls"
    unfolding multiLineStringFromXYEnds_def packed.sel using long ends l
    by (simp only: if_False simp_thms)
qed

lemma exact_lines_round_trip:
  assumes "exact_lines ls"
  shows "polygonFromXYEnds E (Packed t (flat (concat ls)) (cumulative_ends ls 0) ps) = Inr ls"
    and "multiLineStringFromXYEnds E (Packed t (flat (concat ls)) (cumulative_ends ls 0) ps)
           = Inr ls"
proof -
  show "polygonFromXYEnds E (Packed t (flat (concat ls)) (cumulative_ends ls 0) ps) = Inr ls"
  proof (cases "ls = []")
    case True
    then show ?thesis by (simp add: polygonFromXYEnds_def)
  next
    case False
    then show ?thesis using assms lines_round_trip(1) by (simp add: exact_lines_def)
  qed
  show "multiLineStringFromXYEnds E (Packed t (flat (concat ls)) (cumulative_ends ls 0) ps)
           = Inr ls"
  proof (cases "ls = []")
    case True
    then show ?thesis by (simp add: multiLineStringFromXYEnds_def)
  next
    case False
    then show ?thesis using assms lines_round_trip(2) by (simp add: exact_lines_def)
  qed
qed

lemma polygons_round_trip:
  assumes "\<forall>poly\<in>set v. concat poly \<noteq> [] \<and> length (concat poly) < 2 ^ 32"
  shows "polygons_from_parts E
           (map (\<lambda>poly. case polygonToXYEnds poly of
                          (xy, ends) \<Rightarrow> Packed GeometryTypePolygon xy ends []) v) = Inr v"
  using assms
proof (induction v)
  case Nil
  then show ?case by simp
next
  case (Cons poly v)
  then have "concat poly \<noteq> []" "length (concat poly) < 2 ^ 32" by simp_all
  from lines_round_trip(1) [OF this] have
    "polygonFromXYEnds E (Packed GeometryTypePolygon (flat (concat poly))
       (cumulative_ends poly 0) []) = Inr poly" .
  moreover have "poly \<noteq> []" using \<open>concat poly \<noteq> []\<close> by auto
  ultimately show ?case using Cons by (simp add: polygonToXYEnds_eq)
qed

lemma round_trips_not_nil: "round_trips g \<Longrightarrow> unpacked g \<noteq> NilGeometry"
  by (cases g) simp_all

lemma members_round_trip:
  assumes "\<forall>child\<in>set v. geometryToFGB child \<noteq> None \<and>
             geometryFromFGB E (geometryToFGB child) = Inr (unpacked child) \<and>
             unpacked child \<noteq> NilGeometry"
  shows "collect_geometries
           (map (\<lambda>part. geometryFromFGB E (Some part))
              (concat (map (\<lambda>child. case geometryToFGB child of
                                       None \<Rightarrow> [] | Some childGeom \<Rightarrow> [childGeom]) v)))
         = Inr (map unpacked v)"
  using assms
proof (induction v)
  case Nil
  then show ?case by simp
next
  case (Cons child v)
  then obtain g where "geometryToFGB child = Some g"
    "geometryFromFGB E (Some g) = Inr (unpacked child)" "unpacked child \<noteq> NilGeometry"
    by fastforce
  then show ?case using Cons by simp
qed

lemma members_packed_Nil:
  assumes "\<forall>child\<in>set v. geometryToFGB child \<noteq> None"
  shows "(concat (map (\<lambda>child. case geometryToFGB child of
                                       None \<Rightarrow> [] | Some childGeom \<Rightarrow> [childGeom]) v) = [])
         = (v = [])"
  using assms by (cases v) auto

text \<open>
  Claim C7. For every polygon, packing produces \<open>xy\<close> equal to the concatenation of all
  rings' coordinates, ring 0 first and the holes after it in input order, and \<open>ends\<close>
  with one entry per ring, entry \<open>i\<close> being the cumulative vertex count after ring \<open>i\<close>
  (as a \<^verbatim>\<open>uint32\<close>; the count itself when the polygon has fewer than \<open>2 ^ 32\<close> points).
  The two-ring polygon of scenario C packs to an \<open>xy\<close> of length 20 and \<open>ends = [5, 10]\<close>.
\<close>

theorem polygon_packing:
  "fst (polygonToXYEnds poly) = concat (map (\<lambda>p. [fst p, snd p]) (concat poly)) \<and>
   length (snd (polygonToXYEnds poly)) = length poly \<and>
   (\<forall>i<length poly. snd (polygonToXYEnds poly) ! i
        = word_of_nat (sum_list (map length (take (Suc i) poly)))) \<and>
   (sum_list (map length poly) < 2 ^ 32 \<longrightarrow>
      (\<forall>i<length poly. unat (snd (polygonToXYEnds poly) ! i)
          = sum_list (map length (take (Suc i) poly)))) \<and>
   length (fst (polygonToXYEnds scenario_C)) = 20 \<and>
   snd (polygonToXYEnds scenario_C) = [5, 10]"
proof (intro conjI allI impI)
  show "fst (polygonToXYEnds poly) = concat (map (\<lambda>p. [fst p, snd p]) (concat poly))"
    by (simp add: polygonToXYEnds_eq flat_def)
  show "length (snd (polygonToXYEnds poly)) = length poly"
    by (simp add: polygonToXYEnds_eq)
  show "snd (polygonToXYEnds poly) ! i = word_of_nat (sum_list (map length (take (Suc i) poly)))"
    if "i < length poly" for i
    using that by (simp add: polygonToXYEnds_eq cumulative_ends_nth)
  show "unat (snd (polygonToXYEnds poly) ! i) = sum_list (map length (take (Suc i) poly))"
    if "sum_list (map length poly) < 2 ^ 32" "i < length poly" for i
  proof -
    have "sum_list (map length (take (Suc i) poly)) < 2 ^ 32"
      using sum_list_take_le [of "Suc i" poly] that(1) by simp
    then show ?thesis
      using that(2) by (simp add: polygonToXYEnds_eq cumulative_ends_nth unat_of_nat)
  qed
  show "length (fst (polygonToXYEnds scenario_C)) = 20"
    by (simp add: polygonToXYEnds_eq scenario_C_def)
  show "snd (polygonToXYEnds scenario_C) = [5, 10]"
    by (simp add: polygonToXYEnds_eq scenario_C_def)
qed

theorem polygon_packing_witness:
  "fst (polygonToXYEnds scenario_C)
     = [coord_0, coord_0, coord_10, coord_0, coord_10, coord_10, coord_0, coord_10, coord_0, coord_0, coord_2, coord_2, coord_8, coord_2, coord_8, coord_8, coord_2, coord_8, coord_2, coord_2] \<and>
   unat (snd (polygonToXYEnds scenario_C) ! 0) = 5 \<and>
   unat (snd (polygonToXYEnds scenario_C) ! 1) = 10"
  using polygon_packing [of scenario_C]
  by (simp add: scenario_C_def)

text \<open>
  Claim C3 as stated fails: a polygon with one ring that has no point packs to no
  coordinates and \<open>ends = [0]\<close>, and unpacks to the polygon with no ring.
\<close>

theorem empty_ring_not_reproduced:
  "geometryToFGB (Polygon [[]]) = Some (Packed GeometryTypePolygon [] [0] []) \<and>
   geometryFromFGB example_environment (geometryToFGB (Polygon [[]])) = Inr (Polygon []) \<and>
   geometryFromFGB example_environment (geometryToFGB (Polygon [[]])) \<noteq> Inr (Polygon [[]])"
  by (simp add: polygonToXYEnds_def append_points_def polygonFromXYEnds_def)

text \<open>
  Claim C3, amended. For every geometry in which every MultiLineString and Polygon has
  no line or ring, or at least one point, every polygon of a MultiPolygon and every lone
  Ring has at least one point, no Collection member is \<^verbatim>\<open>nil\<close>, and no such point
  sequence reaches \<open>2 ^ 32\<close> points, packing with \<^verbatim>\<open>geometryToFGB\<close> gives a geometry and
  unpacking it with \<^verbatim>\<open>geometryFromFGB\<close> reproduces the point sequence and the ring and
  part structure exactly; a Bound comes back as the closed five-point Polygon of its
  corners, and a lone Ring as the Polygon of that ring.
\<close>

theorem geometry_round_trip:
  "round_trips G \<Longrightarrow>
     geometryToFGB G \<noteq> None \<and> geometryFromFGB E (geometryToFGB G) = Inr (unpacked G)"
proof (induction G)
  case (Point v)
  show ?case by (simp add: pointFromXY_def)
next
  case (MultiPoint v)
  show ?case
    by (simp add: points_round_trip append_points_flat)
next
  case (LineString v)
  show ?case
    by (simp add: points_round_trip lineStringToXY_def append_points_flat)
next
  case (MultiLineString v)
  then show ?case
    by (simp add: multiLineStringToXYEnds_eq exact_lines_round_trip(2))
next
  case (Ring v)
  then have "exact_lines [v]" by (simp add: exact_lines_def)
  from exact_lines_round_trip(1) [OF this, where t = GeometryTypePolygon and ps = "[]"]
  show ?case by (simp add: ringToXY_def append_points_flat)
next
  case (Polygon v)
  then show ?case
    by (simp add: polygonToXYEnds_eq exact_lines_round_trip(1))
next
  case (MultiPolygon v)
  show ?case
  proof (cases "v = []")
    case True
    then show ?thesis by (simp add: multiPolygonFromParts_def polygonFromXYEnds_def)
  next
    case False
    then show ?thesis
      using polygons_round_trip [of v] MultiPolygon
      by (simp add: multiPolygonFromParts_def)
  qed
next
  case (Collection v)
  have members: "\<forall>child\<in>set v. geometryToFGB child \<noteq> None \<and>
             geometryFromFGB E (geometryToFGB child) = Inr (unpacked child) \<and>
             unpacked child \<noteq> NilGeometry"
    using Collection by (auto simp: round_trips_not_nil)
  then have nil: "(concat (map (\<lambda>child. case geometryToFGB child of
                                       None \<Rightarrow> [] | Some childGeom \<Rightarrow> [childGeom]) v) = [])
         = (v = [])"
    using members_packed_Nil [of v] by blast
  show ?case
  proof (cases "v = []")
    case True
    then show ?thesis by simp
  next
    case False
    then show ?thesis
      using members_round_trip [OF members] nil by simp
  qed
next
  case (Bound bmin bmax)
  have "exact_lines (boundToPolygon bmin bmax)"
    by (simp add: exact_lines_def boundToPolygon_def)
  from exact_lines_round_trip(1) [OF this, where t = GeometryTypePolygon and ps = "[]"]
  show ?case by (simp add: polygonToXYEnds_eq)
next
  case NilGeometry
  then show ?case by simp
qed

theorem geometry_round_trip_witness:
  "round_trips (Collection [Point (coord_2, coord_8), Polygon scenario_C, Bound (coord_0, coord_0) (coord_10, coord_10),
       MultiLineString [[(coord_0, coord_0), (coord_2, coord_2)], [], [(coord_8, coord_8)]]]) \<and>
   geometryFromFGB example_environment (geometryToFGB
     (Collection [Point (coord_2, coord_8), Polygon scenario_C, Bound (coord_0, coord_0) (coord_10, coord_10),
       MultiLineString [[(coord_0, coord_0), (coord_2, coord_2)], [], [(coord_8, coord_8)]]]))
     = Inr (Collection [Point (coord_2, coord_8), Polygon scenario_C,
         Polygon [[(coord_0, coord_0), (coord_10, coord_0), (coord_10, coord_10), (coord_0, coord_10), (coord_0, coord_0)]],
         MultiLineString [[(coord_0, coord_0), (coord_2, coord_2)], [], [(coord_8, coord_8)]]])"
proof -
  have rt: "round_trips (Collection [Point (coord_2, coord_8), Polygon scenario_C,
       Bound (coord_0, coord_0) (coord_10, coord_10), MultiLineString [[(coord_0, coord_0), (coord_2, coord_2)], [], [(coord_8, coord_8)]]])"
    by (simp add: exact_lines_def scenario_C_def)
  from geometry_round_trip [OF rt, of example_environment] rt show ?thesis
    by (simp add: boundToPolygon_def)
qed

lemma lines_from_ends_length:
  "lines_from_ends limit xy ends start = Inr ls \<Longrightarrow> length ls = length ends"
  by (induction ends arbitrary: start ls) (auto split: if_splits sum.splits)

lemma lines_from_ends_sorted:
  assumes "sorted (map unat ends)" "\<forall>e\<in>set ends. unat start \<le> unat e"
    "\<forall>e\<in>set ends. unat e \<le> length xy div 2"
  shows "\<exists>ls. lines_from_ends limit xy ends start = Inr ls"
  using assms
proof (induction ends arbitrary: start)
  case Nil
  then show ?case by simp
next
  case (Cons e ends)
  have le: "unat start \<le> unat e" using Cons.prems(2) by simp
  then have "unat (e - start) = unat e - unat start"
    by (simp add: unat_sub word_le_nat_alt)
  moreover have "unat e \<le> length xy div 2" using Cons.prems(3) by simp
  ultimately have "unat (e - start) \<le> length xy div 2"
    by linarith
  then have cap: "\<not> max limit (length xy div 2) < unat (e - start)"
    by simp
  have "\<exists>ls. lines_from_ends limit xy ends e = Inr ls"
    by (rule Cons.IH) (use Cons.prems in auto)
  then show ?case using cap by auto
qed

lemma points_from_xy_even:
  "even (length xy) \<Longrightarrow> \<exists>ps. points_from_xy beyond xy = Inr ps"
  by (induction beyond xy rule: points_from_xy.induct) auto

lemma polygonFromXYEnds_well_formed:
  assumes "2 \<le> length (geom_xy g)" "even (length (geom_xy g))"
    "sorted (map unat (geom_ends g))"
    "\<forall>e\<in>set (geom_ends g). unat e \<le> length (geom_xy g) div 2"
  shows "\<exists>poly. poly \<noteq> [] \<and> polygonFromXYEnds E g = Inr poly"
proof (cases "geom_ends g = []")
  case True
  then show ?thesis
    using assms(1) points_from_xy_even [OF assms(2), of "xy_beyond E g"]
    by (auto simp: polygonFromXYEnds_def)
next
  case False
  obtain ls where ls: "lines_from_ends (alloc_points E) (geom_xy g) (geom_ends g) 0 = Inr ls"
    using lines_from_ends_sorted [OF assms(3) _ assms(4), of 0 "alloc_points E"] by auto
  then have "length ls = length (geom_ends g)" by (rule lines_from_ends_length)
  then have "ls \<noteq> []" using False by auto
  then show ?thesis using assms(1) False ls by (auto simp: polygonFromXYEnds_def)
qed

lemma points_from_xy_even_same:
  "even (length xy) \<Longrightarrow> points_from_xy beyond xy = points_from_xy beyond' xy"
  by (induction beyond xy rule: points_from_xy.induct) auto

lemma polygonFromXYEnds_even_same:
  assumes "even (length xy)"
  shows "polygonFromXYEnds E (Packed t xy ends ps) = polygonFromXYEnds E (Packed t' xy ends ps')"
proof -
  have "points_from_xy (xy_beyond E (Packed t xy ends ps)) xy
      = points_from_xy (xy_beyond E (Packed t' xy ends ps')) xy"
    by (rule points_from_xy_even_same [OF assms])
  then show ?thesis
    by (simp only: polygonFromXYEnds_def packed.sel)
qed

text \<open>
  The two reads that leave the data of a node, on examples. With an odd number of
  coordinates and no ends the last point takes its \<open>y\<close> from past the vector; with ends
  \<open>[2, 1]\<close> the second capacity wraps to \<open>2 ^ 32 - 1\<close> points and an environment that
  cannot allocate as much aborts.
\<close>

lemma odd_xy_reads_beyond:
  "polygonFromXYEnds E (Packed t [x, y, z] [] ps)
     = (case xy_beyond E (Packed t [x, y, z] [] ps) of
          Inl err \<Rightarrow> Inl err
        | Inr w \<Rightarrow> Inr [[(x, y), (z, w)]])"
  by (simp add: polygonFromXYEnds_def split: sum.splits)

lemma unat_minus_one_32: "unat (- 1 :: 32 word) = 4294967295"
proof -
  have "(- 1 :: 32 word) = 4294967295" by simp
  then show ?thesis by (simp only: unat_numeral) simp
qed

lemma wrapped_capacity_aborts:
  "geometryFromFGB \<lparr>xy_beyond = b, alloc_points = 1000\<rparr>
     (Some (Packed GeometryTypeMultiPolygon
        [coord_0, coord_0, coord_10, coord_10, coord_2, coord_8] [2, 1] []))
     = Inl OutOfMemory"
  by (simp add: polygonFromXYEnds_def multiPolygonFromParts_def unat_minus_one_32)

lemma points_between_example_1: "points_between [coord_0, coord_0, coord_10, coord_10, coord_2, coord_8] 0 2
   = [(coord_0, coord_0), (coord_10, coord_10)]"
proof -
  have "[0..<2] = [0, Suc 0]" by (simp add: upt_conv_Cons numeral_2_eq_2)
  then show ?thesis by (simp add: points_between_def)
qed

lemma points_between_example_2: "points_between [coord_0, coord_0, coord_10, coord_10, coord_2, coord_8] 2 3
   = [(coord_2, coord_8)]"
proof -
  have "[2..<3] = [2::nat]" by (simp add: upt_conv_Cons)
  then show ?thesis by (simp add: points_between_def)
qed

text \<open>
  Claim C6 as stated fails for a collection: a node tagged GeometryCollection with no
  parts and two coordinate pairs unpacks to the empty Collection, while the same node
  read as a Polygon has a ring.
\<close>

theorem collection_has_no_fallback:
  "geometryFromFGB example_environment
     (Some (Packed GeometryTypeGeometryCollection [coord_0, coord_0, coord_10, coord_10] [] []))
     = Inr (Collection []) \<and>
   geometryFromFGB example_environment
     (Some (Packed GeometryTypePolygon [coord_0, coord_0, coord_10, coord_10] [] []))
     = Inr (Polygon [[(coord_0, coord_0), (coord_10, coord_10)]])"
  by (simp add: polygonFromXYEnds_def)

text \<open>
  Claim C6, amended. For every packed node whose parts list is empty: if its type tag is
  MultiPolygon, its \<open>xy\<close> buffer holds an even number of values, at least two, and its
  ends are non-decreasing and none exceeds the number of points in \<open>xy\<close>, unpacking
  gives the MultiPolygon of one polygon, the one with at least one ring that unpacking
  gives for the same node tagged Polygon; if its type tag is GeometryCollection,
  unpacking gives the empty Collection whatever its \<open>xy\<close> buffer and ends.
\<close>

theorem parts_less_fallback:
  "(2 \<le> length xy \<and> even (length xy) \<and> sorted (map unat ends) \<and>
    (\<forall>e\<in>set ends. unat e \<le> length xy div 2) \<longrightarrow>
      (\<exists>poly. poly \<noteq> [] \<and>
         geometryFromFGB E (Some (Packed GeometryTypePolygon xy ends [])) = Inr (Polygon poly) \<and>
         geometryFromFGB E (Some (Packed GeometryTypeMultiPolygon xy ends []))
           = Inr (MultiPolygon [poly]))) \<and>
   geometryFromFGB E (Some (Packed GeometryTypeGeometryCollection xy ends []))
     = Inr (Collection [])"
proof (intro conjI impI)
  assume wf: "2 \<le> length xy \<and> even (length xy) \<and> sorted (map unat ends) \<and>
    (\<forall>e\<in>set ends. unat e \<le> length xy div 2)"
  let ?g = "Packed GeometryTypeMultiPolygon xy ends []"
  obtain poly where poly: "poly \<noteq> []" "polygonFromXYEnds E ?g = Inr poly"
    using polygonFromXYEnds_well_formed [of ?g E] wf by auto
  have "polygonFromXYEnds E (Packed GeometryTypePolygon xy ends []) = polygonFromXYEnds E ?g"
    by (rule polygonFromXYEnds_even_same) (use wf in simp)
  then have "polygonFromXYEnds E (Packed GeometryTypePolygon xy ends []) = Inr poly"
    using poly(2) by (simp only:)
  then have "geometryFromFGB E (Some (Packed GeometryTypePolygon xy ends []))
      = Inr (Polygon poly)"
    by simp
  moreover have "geometryFromFGB E (Some ?g) = Inr (MultiPolygon [poly])"
    using poly by (simp add: multiPolygonFromParts_def)
  ultimately show "\<exists>poly. poly \<noteq> [] \<and>
         geometryFromFGB E (Some (Packed GeometryTypePolygon xy ends [])) = Inr (Polygon poly) \<and>
         geometryFromFGB E (Some (Packed GeometryTypeMultiPolygon xy ends []))
           = Inr (MultiPolygon [poly])"
    using poly(1) by blast
next
  show "geometryFromFGB E (Some (Packed GeometryTypeGeometryCollection xy ends []))
     = Inr (Collection [])"
    by simp
qed


theorem parts_less_fallback_witness:
  "geometryFromFGB example_environment
     (Some (Packed GeometryTypeMultiPolygon
        [coord_0, coord_0, coord_10, coord_10, coord_2, coord_8] [2, 3] []))
     = Inr (MultiPolygon [[[(coord_0, coord_0), (coord_10, coord_10)], [(coord_2, coord_8)]]]) \<and>
   geometryFromFGB example_environment (Some (Packed GeometryTypeGeometryCollection [] [] []))
     = Inr (Collection [])"
  using parts_less_fallback [of "[coord_0, coord_0, coord_10, coord_10, coord_2, coord_8]"
      "[2, 3]" example_environment]
  by (simp add: polygonFromXYEnds_def points_between_example_1 points_between_example_2
      example_environment_def)

end
